theory Spec2Isabelle
  imports Main "HOL-Library.Product_Lexorder" "HOL-Library.Multiset" "HOL-Library.Sublist"
begin

section \<open>Entries\<close>

text \<open>An entry as \<^verbatim>\<open>parseRSS\<close> builds it: five strings.\<close>

record item =
  i_title :: string
  i_link :: string
  i_published :: string
  i_content :: string
  i_author :: string

section \<open>The feed parser (parseRSS)\<close>

subsection \<open>The document\<close>

text \<open>
  \<^verbatim>\<open>parseRSS\<close> reads the document that the browser's \<^verbatim>\<open>DOMParser\<close> builds from the text.
  The parser of the browser is a parameter; for \<^verbatim>\<open>text/xml\<close> it returns a document for
  every string (one with a \<^verbatim>\<open>parsererror\<close> element when the text is not well-formed) and
  does not throw.  A document is its root element.  An element has a namespace prefix
  (empty when it has none), a local name, attributes by qualified name, and children; the
  other nodes that matter here are texts.
\<close>

datatype node =
  Elem (prefix_of: string) (localName: string) (attributes: "(string \<times> string) list")
    (childNodes: "node list")
| Text (data: string)

definition is_element :: "node \<Rightarrow> bool" where
  "is_element n = (case n of Elem p l as cs \<Rightarrow> True | Text s \<Rightarrow> False)"

text \<open>\<^verbatim>\<open>tagName\<close>: the qualified name.\<close>

definition tagName :: "node \<Rightarrow> string" where
  "tagName n =
     (case n of
        Elem p l as cs \<Rightarrow> if p = [] then l else p @ '':'' @ l
      | Text s \<Rightarrow> [])"

text \<open>\<^verbatim>\<open>textContent\<close>: the texts below a node, concatenated in document order.\<close>

fun textContent :: "node \<Rightarrow> string" where
  "textContent (Text s) = s"
| "textContent (Elem p l as cs) = concat (map textContent cs)"

text \<open>\<^verbatim>\<open>getAttribute\<close>: \<^verbatim>\<open>null\<close> for an attribute that is not there.\<close>

definition getAttribute :: "string \<Rightarrow> node \<Rightarrow> string option" where
  "getAttribute a n = (case n of Elem p l as cs \<Rightarrow> map_of as a | Text s \<Rightarrow> None)"

text \<open>The elements below a node in document order, each with its parent.\<close>

fun descendants :: "node \<Rightarrow> (node \<times> node) list" where
  "descendants (Text s) = []"
| "descendants (Elem p l as cs) =
     concat (map (\<lambda>c. (if is_element c then [(Elem p l as cs, c)] else []) @ descendants c) cs)"

subsection \<open>Exceptions\<close>

text \<open>
  The two exceptions that the calls of \<^verbatim>\<open>parseRSS\<close> can raise: \<^verbatim>\<open>querySelector\<close> and
  \<^verbatim>\<open>querySelectorAll\<close> throw a \<^verbatim>\<open>SyntaxError\<close> for a string that is not a selector, and a
  property read or method call on \<^verbatim>\<open>null\<close> or \<^verbatim>\<open>undefined\<close> throws a \<^verbatim>\<open>TypeError\<close>.  A
  computation returns \<open>Inl\<close> of the exception it throws or \<open>Inr\<close> of its value; \<open>and_then\<close>
  runs the second computation on the value of the first and passes the exception of the
  first on.
\<close>

datatype exn = SyntaxError | TypeError

definition and_then :: "exn + 'a \<Rightarrow> ('a \<Rightarrow> exn + 'b) \<Rightarrow> exn + 'b" where
  "and_then m f = (case m of Inl e \<Rightarrow> Inl e | Inr v \<Rightarrow> f v)"

text \<open>\<^verbatim>\<open>x.p\<close> and \<^verbatim>\<open>x?.p\<close> for a value \<open>x\<close> that may be \<^verbatim>\<open>null\<close> or \<^verbatim>\<open>undefined\<close> (\<open>None\<close>): on
  such a value the first throws and the second is \<^verbatim>\<open>undefined\<close>.\<close>

datatype access = Dot | OptDot

definition member :: "access \<Rightarrow> ('a \<Rightarrow> exn + 'b option) \<Rightarrow> 'a option \<Rightarrow> exn + 'b option" where
  "member k p x =
     (case x of
        Some v \<Rightarrow> p v
      | None \<Rightarrow> (case k of Dot \<Rightarrow> Inl TypeError | OptDot \<Rightarrow> Inr None))"

text \<open>\<^verbatim>\<open>a || b\<close> on strings that may be \<^verbatim>\<open>null\<close> or \<^verbatim>\<open>undefined\<close>: the empty string is falsy
  too, and \<open>b\<close> is evaluated only when \<open>a\<close> is falsy.\<close>

definition or_else :: "exn + string option \<Rightarrow> exn + string \<Rightarrow> exn + string" where
  "or_else a b =
     and_then a (\<lambda>v. case v of None \<Rightarrow> b | Some s \<Rightarrow> if s \<noteq> [] then Inr s else b)"

text \<open>\<^verbatim>\<open>xs.forEach((x) => { items.push(f(x)) })\<close>, for an \<open>f\<close> that may throw.\<close>

fun for_each :: "('a \<Rightarrow> exn + 'b) \<Rightarrow> 'a list \<Rightarrow> exn + 'b list" where
  "for_each f [] = Inr []"
| "for_each f (x # xs) = and_then (f x) (\<lambda>y. and_then (for_each f xs) (\<lambda>ys. Inr (y # ys)))"

subsection \<open>Selectors\<close>

text \<open>
  The selectors \<^verbatim>\<open>parseRSS\<close> uses: a type selector \<^verbatim>\<open>t\<close>, a child combinator \<^verbatim>\<open>p > t\<close> and
  an attribute selector \<^verbatim>\<open>t[a='v']\<close>.  In an XML document a type selector without a
  namespace matches on the local name, with case.  \<^verbatim>\<open>querySelector\<close> on an element searches
  the elements below it; on the document it searches the root too, which has no parent
  element.
\<close>

datatype selector = Tag string | ChildOf string string | TagAttr string string string

definition has_local :: "string \<Rightarrow> node \<Rightarrow> bool" where
  "has_local t n = (case n of Elem p l as cs \<Rightarrow> l = t | Text s \<Rightarrow> False)"

fun matches :: "selector \<Rightarrow> node option \<Rightarrow> node \<Rightarrow> bool" where
  "matches (Tag t) parent n = has_local t n"
| "matches (ChildOf pt t) parent n =
     (has_local t n \<and> (case parent of None \<Rightarrow> False | Some pn \<Rightarrow> has_local pt pn))"
| "matches (TagAttr t a v) parent n = (has_local t n \<and> getAttribute a n = Some v)"

definition select :: "selector \<Rightarrow> (node option \<times> node) list \<Rightarrow> node list" where
  "select sel cands = map snd (filter (\<lambda>pe. matches sel (fst pe) (snd pe)) cands)"

definition el_elements :: "node \<Rightarrow> (node option \<times> node) list" where
  "el_elements e = map (\<lambda>pe. (Some (fst pe), snd pe)) (descendants e)"

definition doc_elements :: "node \<Rightarrow> (node option \<times> node) list" where
  "doc_elements root = (None, root) # el_elements root"

text \<open>\<^verbatim>\<open>xs[0]\<close>: \<^verbatim>\<open>undefined\<close> for an empty list.\<close>

definition first :: "'a list \<Rightarrow> 'a option" where
  "first xs = (case xs of [] \<Rightarrow> None | x # _ \<Rightarrow> Some x)"

subsection \<open>Selector strings\<close>

text \<open>
  The methods take the selector as a string.  \<open>parse_selector\<close> reads the three forms
  above: names of letters, digits, \<^verbatim>\<open>-\<close> and \<^verbatim>\<open>_\<close> that do not start with a digit or \<^verbatim>\<open>-\<close>,
  with \<^verbatim>\<open>\c\<close> for a character \<open>c\<close> that is not a hexadecimal digit or a line break (as in
  \<^verbatim>\<open>dc\:date\<close>, whose name is \<^verbatim>\<open>dc:date\<close>); spaces around \<^verbatim>\<open>></\<close>; an attribute value in single
  quotes without a backslash or a line break.  Every string it accepts is a selector for
  the browser.  The browser accepts more selectors than these; a string outside the three
  forms counts as a syntax error here, so that a call that does not throw here does not
  throw in the browser.
\<close>

definition backslash :: char where
  "backslash = CHR 0x5C"

definition quote :: char where
  "quote = CHR 0x27"

definition line_break :: "char \<Rightarrow> bool" where
  "line_break c \<longleftrightarrow> c = CHR 0x0A \<or> c = CHR 0x0D \<or> c = CHR 0x0C"

definition hex_digit :: "char \<Rightarrow> bool" where
  "hex_digit c \<longleftrightarrow> c \<in> set ''0123456789abcdefABCDEF''"

definition name_start :: "char \<Rightarrow> bool" where
  "name_start c \<longleftrightarrow> c \<in> set ''abcdefghijklmnopqrstuvwxyzABCDEFGHIJKLMNOPQRSTUVWXYZ_''"

definition name_char :: "char \<Rightarrow> bool" where
  "name_char c \<longleftrightarrow> name_start c \<or> c \<in> set ''0123456789-''"

text \<open>The longest name at the start of a string, and the rest of the string; \<open>None\<close> for a
  backslash that does not escape a character.\<close>

fun name_of :: "string \<Rightarrow> (string \<times> string) option" where
  "name_of [] = Some ([], [])"
| "name_of [c] = (if name_char c then Some ([c], []) else if c = backslash then None else Some ([], [c]))"
| "name_of (c # e # cs) =
     (if c = backslash
      then (if hex_digit e \<or> line_break e then None
            else map_option (\<lambda>nr. (e # fst nr, snd nr)) (name_of cs))
      else if name_char c
      then map_option (\<lambda>nr. (c # fst nr, snd nr)) (name_of (e # cs))
      else Some ([], c # e # cs))"

definition ident :: "string \<Rightarrow> (string \<times> string) option" where
  "ident s =
     (case s of
        [] \<Rightarrow> None
      | c # cs \<Rightarrow> if name_start c \<or> c = backslash then name_of s else None)"

text \<open>\<^verbatim>\<open>t\<close> or \<^verbatim>\<open>t[a='v']\<close> at the start of a string.\<close>

definition attr_value :: "string \<Rightarrow> (string \<times> string) option" where
  "attr_value s =
     (case s of
        e # q # r \<Rightarrow>
          if e = CHR ''='' \<and> q = quote
          then (let v = takeWhile (\<lambda>c. c \<noteq> quote) r in
                if list_ex (\<lambda>c. c = backslash \<or> line_break c) v then None
                else (case dropWhile (\<lambda>c. c \<noteq> quote) r of
                        q' # b # r' \<Rightarrow> if b = CHR '']'' then Some (v, r') else None
                      | _ \<Rightarrow> None))
          else None
      | _ \<Rightarrow> None)"

definition compound :: "string \<Rightarrow> (selector \<times> string) option" where
  "compound s =
     (case ident s of
        None \<Rightarrow> None
      | Some (t, r) \<Rightarrow>
          (case r of
             [] \<Rightarrow> Some (Tag t, [])
           | c # r1 \<Rightarrow>
               if c = CHR ''[''
               then (case ident r1 of
                       None \<Rightarrow> None
                     | Some (a, r2) \<Rightarrow> map_option (\<lambda>vr. (TagAttr t a (fst vr), snd vr)) (attr_value r2))
               else Some (Tag t, r)))"

definition spaces :: "string \<Rightarrow> string" where
  "spaces s = dropWhile (\<lambda>c. c = CHR '' '') s"

definition parse_selector :: "string \<Rightarrow> selector option" where
  "parse_selector s =
     (case compound s of
        None \<Rightarrow> None
      | Some (sel, r) \<Rightarrow>
          if r = [] then Some sel
          else (case (sel, spaces r) of
                  (Tag pt, g # r1) \<Rightarrow>
                    if g = CHR ''>''
                    then (case ident (spaces r1) of
                            Some (t, []) \<Rightarrow> Some (ChildOf pt t)
                          | _ \<Rightarrow> None)
                    else None
                | _ \<Rightarrow> None))"

subsection \<open>The methods of the DOM\<close>

definition querySelectorAll :: "string \<Rightarrow> node \<Rightarrow> exn + node list" where
  "querySelectorAll s e =
     (case parse_selector s of
        None \<Rightarrow> Inl SyntaxError
      | Some sel \<Rightarrow> Inr (select sel (el_elements e)))"

definition querySelector :: "string \<Rightarrow> node \<Rightarrow> exn + node option" where
  "querySelector s e = and_then (querySelectorAll s e) (\<lambda>found. Inr (first found))"

definition doc_querySelectorAll :: "string \<Rightarrow> node \<Rightarrow> exn + node list" where
  "doc_querySelectorAll s root =
     (case parse_selector s of
        None \<Rightarrow> Inl SyntaxError
      | Some sel \<Rightarrow> Inr (select sel (doc_elements root)))"

definition doc_querySelector :: "string \<Rightarrow> node \<Rightarrow> exn + node option" where
  "doc_querySelector s root = and_then (doc_querySelectorAll s root) (\<lambda>found. Inr (first found))"

text \<open>\<^verbatim>\<open>getElementsByTagName\<close> matches on the qualified name and takes any string.\<close>

definition getElementsByTagName :: "string \<Rightarrow> node \<Rightarrow> node list" where
  "getElementsByTagName q e = filter (\<lambda>c. tagName c = q) (map snd (descendants e))"

text \<open>The two properties \<^verbatim>\<open>parseRSS\<close> reads of a node that may be missing: \<^verbatim>\<open>textContent\<close> and
  \<^verbatim>\<open>getAttribute("href")\<close>.\<close>

definition text_of :: "access \<Rightarrow> node option \<Rightarrow> exn + string option" where
  "text_of k x = member k (\<lambda>n. Inr (Some (textContent n))) x"

definition href_of :: "access \<Rightarrow> node option \<Rightarrow> exn + string option" where
  "href_of k x = member k (\<lambda>n. Inr (getAttribute ''href'' n)) x"

subsection \<open>parseRSS\<close>

text \<open>The JavaScript text \<^verbatim>\<open>"dc\\:date"\<close> is the string \<^verbatim>\<open>dc\:date\<close>.\<close>

definition dc_date :: string where
  "dc_date = ''dc'' @ backslash # '':date''"

text \<open>The object pushed for an \<^verbatim>\<open>entry\<close> of an Atom feed and for an \<^verbatim>\<open>item\<close> of an RSS channel.
  The properties are evaluated in the order in which they are written.\<close>

definition atom_entry :: "node \<Rightarrow> exn + item" where
  "atom_entry entry =
     and_then (or_else (and_then (querySelector ''title'' entry) (text_of OptDot))
                 (Inr ''Untitled'')) (\<lambda>title.
     and_then (or_else (and_then (querySelector ''link[rel='alternate']'' entry) (href_of OptDot))
                 (or_else (and_then (querySelector ''link'' entry) (href_of OptDot))
                    (Inr []))) (\<lambda>link.
     and_then (or_else (and_then (querySelector ''published'' entry) (text_of OptDot))
                 (or_else (and_then (querySelector ''updated'' entry) (text_of OptDot))
                    (Inr []))) (\<lambda>published.
     and_then (or_else (and_then (querySelector ''content'' entry) (text_of OptDot))
                 (or_else (and_then (querySelector ''summary'' entry) (text_of OptDot))
                    (Inr []))) (\<lambda>content.
     and_then (or_else (and_then (querySelector ''author > name'' entry) (text_of OptDot))
                 (Inr [])) (\<lambda>author.
     Inr \<lparr>i_title = title, i_link = link, i_published = published, i_content = content,
          i_author = author\<rparr>)))))"

definition rss_item :: "node \<Rightarrow> exn + item" where
  "rss_item it =
     and_then (or_else (and_then (querySelector ''title'' it) (text_of OptDot))
                 (Inr ''Untitled'')) (\<lambda>title.
     and_then (or_else (and_then (querySelector ''link'' it) (text_of OptDot))
                 (Inr [])) (\<lambda>link.
     and_then (or_else (and_then (querySelector ''pubDate'' it) (text_of OptDot))
                 (or_else (and_then (querySelector dc_date it) (text_of OptDot))
                    (Inr []))) (\<lambda>published.
     and_then (or_else (text_of OptDot (first (getElementsByTagName ''content:encoded'' it)))
                 (or_else (and_then (querySelector ''description'' it) (text_of OptDot))
                    (Inr []))) (\<lambda>content.
     and_then (or_else (text_of OptDot (first (getElementsByTagName ''dc:creator'' it)))
                 (or_else (and_then (querySelector ''author'' it) (text_of OptDot))
                    (Inr []))) (\<lambda>author.
     Inr \<lparr>i_title = title, i_link = link, i_published = published, i_content = content,
          i_author = author\<rparr>)))))"

text \<open>The result \<^verbatim>\<open>{ feedTitle, items }\<close>.\<close>

record parsed =
  p_feedTitle :: string
  p_items :: "item list"

text \<open>The body of \<^verbatim>\<open>parseRSS\<close> after the document is built.  \<open>feed\<close> is the value of
  \<^verbatim>\<open>doc.querySelector("feed")\<close>, and \<^verbatim>\<open>isAtom\<close> is \<^verbatim>\<open>!!feed\<close>.\<close>

definition parse_document :: "node \<Rightarrow> exn + parsed" where
  "parse_document doc =
     and_then (doc_querySelector ''feed'' doc) (\<lambda>feed.
     if feed \<noteq> None
     then
       and_then (or_else (and_then (doc_querySelector ''feed > title'' doc) (text_of OptDot))
                   (Inr ''Untitled'')) (\<lambda>feedTitle.
       and_then (doc_querySelectorAll ''entry'' doc) (\<lambda>entries.
       and_then (for_each atom_entry entries) (\<lambda>items.
       Inr \<lparr>p_feedTitle = feedTitle, p_items = items\<rparr>)))
     else
       and_then (doc_querySelector ''channel'' doc) (\<lambda>channel.
       and_then (or_else (and_then (member OptDot (querySelector ''title'') channel) (text_of OptDot))
                   (Inr ''Untitled'')) (\<lambda>feedTitle.
       and_then (doc_querySelectorAll ''item'' doc) (\<lambda>found.
       and_then (for_each rss_item found) (\<lambda>items.
       Inr \<lparr>p_feedTitle = feedTitle, p_items = items\<rparr>)))))"

definition parseRSS :: "(string \<Rightarrow> node) \<Rightarrow> string \<Rightarrow> exn + parsed" where
  "parseRSS parseFromString xmlText = parse_document (parseFromString xmlText)"

section \<open>The article store of Lector (src/db.js)\<close>

subsection \<open>Tables\<close>

text \<open>
  The store is an SQLite database with three tables.  A table is the list of its rows in
  insertion order.  Column names are those of the SQL text in \<^verbatim>\<open>db.js\<close>, prefixed by
  \<open>f_\<close> (table \<^verbatim>\<open>feeds\<close>) and \<open>r_\<close> (table \<^verbatim>\<open>articles\<close>).  Timestamps are
  milliseconds since the epoch.  \<open>f_added_at\<close> is \<open>None\<close> when the JavaScript value bound
  to it is \<^verbatim>\<open>NaN\<close>.  The two flags \<^verbatim>\<open>is_read\<close> and \<^verbatim>\<open>is_starred\<close> are stored as integers.
\<close>

record feed_row =
  f_url :: string
  f_name :: string
  f_added_at :: "int option"

record article_row =
  r_id :: string
  r_feed_url :: string
  r_feed_name :: string
  r_title :: string
  r_link :: string
  r_published :: string
  r_published_ts :: int
  r_content :: string
  r_author :: string
  r_is_read :: int
  r_is_starred :: int
  r_fetched_at :: int

record db =
  feeds :: "feed_row list"
  articles :: "article_row list"
  meta :: "(string \<times> string) list"

text \<open>The failures of the durable layer that the statements of \<^verbatim>\<open>db.js\<close> can provoke by
  themselves: a foreign-key violation, and a statement with more variables than the
  engine accepts.  A failing statement changes nothing.\<close>

datatype store_error = ForeignKeyViolation | TooManyVariables

subsection \<open>The schema\<close>

text \<open>
  The migration that creates the tables is not part of \<^verbatim>\<open>src/\<close>.  What the statements of
  \<^verbatim>\<open>db.js\<close> need of the table declarations is taken from the spec, in the definitions of
  this subsection: section 6 of the spec lists Feeds (url PK, name, added_at), Articles
  (id PK, feed_url FK, ..., is_read, is_starred, fetched_at) and Meta (key/value), and
  section 3 says that every Article's feedUrl must reference a live Feed, that removing a
  Feed removes all its Articles, and that isRead and isStarred default to false.
\<close>

definition feed_urls :: "db \<Rightarrow> string set" where
  "feed_urls d = set (map f_url (feeds d))"

definition article_ids :: "db \<Rightarrow> string set" where
  "article_ids d = set (map r_id (articles d))"

text \<open>Modelled from the spec: the constraints of the missing table declarations.  A store
  satisfies the schema when the three primary keys (\<^verbatim>\<open>feeds.url\<close>, \<^verbatim>\<open>articles.id\<close>,
  \<^verbatim>\<open>meta.key\<close>) are unique and every \<^verbatim>\<open>articles.feed_url\<close> is the url of a feed.\<close>

definition wf_db :: "db \<Rightarrow> bool" where
  "wf_db d \<longleftrightarrow>
     distinct (map f_url (feeds d)) \<and>
     distinct (map r_id (articles d)) \<and>
     distinct (map fst (meta d)) \<and>
     list_all (\<lambda>r. r_feed_url r \<in> feed_urls d) (articles d)"

text \<open>Modelled from the spec: the foreign key of \<^verbatim>\<open>articles.feed_url\<close> in the missing table
  declarations.  A new article row violates it when no feed has its \<^verbatim>\<open>feed_url\<close>.\<close>

definition fk_violation :: "article_row \<Rightarrow> db \<Rightarrow> bool" where [simp]:
  "fk_violation new d \<longleftrightarrow> r_feed_url new \<notin> feed_urls d"

text \<open>Modelled from the spec: the \<^verbatim>\<open>ON DELETE CASCADE\<close> of that foreign key in the missing
  table declarations.  The article rows that remain when the feed with url \<open>u\<close> is
  deleted.\<close>

definition on_delete_cascade :: "string \<Rightarrow> article_row list \<Rightarrow> article_row list" where [simp]:
  "on_delete_cascade u rows = filter (\<lambda>r. r_feed_url r \<noteq> u) rows"

text \<open>Modelled from the spec: the defaults of the columns \<^verbatim>\<open>is_read\<close> and \<^verbatim>\<open>is_starred\<close> in the
  missing table declarations.\<close>

definition default_is_read :: int where
  "default_is_read = 0"

definition default_is_starred :: int where
  "default_is_starred = 0"

subsection \<open>The SQL statements of db.js\<close>

text \<open>\<^verbatim>\<open>INSERT OR IGNORE INTO feeds (url, name, added_at) VALUES ($1, $2, $3)\<close>\<close>

definition insert_or_ignore_feed :: "feed_row \<Rightarrow> db \<Rightarrow> db" where
  "insert_or_ignore_feed f d =
     (if f_url f \<in> feed_urls d then d else d\<lparr>feeds := feeds d @ [f]\<rparr>)"

text \<open>\<^verbatim>\<open>DELETE FROM feeds WHERE url = $1\<close>.  The statement names the table \<^verbatim>\<open>feeds\<close> only; when
  it deletes a feed, the rows of \<^verbatim>\<open>articles\<close> that reference it go by the cascade.\<close>

definition delete_feed :: "string \<Rightarrow> db \<Rightarrow> db" where
  "delete_feed u d =
     (if u \<in> feed_urls d
      then d\<lparr>feeds := filter (\<lambda>f. f_url f \<noteq> u) (feeds d),
             articles := on_delete_cascade u (articles d)\<rparr>
      else d)"

text \<open>\<^verbatim>\<open>INSERT INTO articles (id, feed_url, feed_name, title, link, published, published_ts,
  content, author, fetched_at) VALUES (...) ON CONFLICT(id) DO UPDATE SET feed_name = $3,
  title = $4, link = $5, published = $6, published_ts = $7, content = $8, author = $9,
  fetched_at = $10\<close>.  The argument row carries the ten bound values; its two flags are not
  read.  On a conflict the stored row keeps \<^verbatim>\<open>id\<close>, \<^verbatim>\<open>feed_url\<close>, \<^verbatim>\<open>is_read\<close> and \<^verbatim>\<open>is_starred\<close>;
  a row that is inserted gets the defaults of the two flag columns.\<close>

definition do_update_set :: "article_row \<Rightarrow> article_row \<Rightarrow> article_row" where
  "do_update_set new old =
     old\<lparr>r_feed_name := r_feed_name new, r_title := r_title new, r_link := r_link new,
         r_published := r_published new, r_published_ts := r_published_ts new,
         r_content := r_content new, r_author := r_author new,
         r_fetched_at := r_fetched_at new\<rparr>"

definition upsert_article :: "article_row \<Rightarrow> db \<Rightarrow> store_error + db" where
  "upsert_article new d =
     (if r_id new \<in> article_ids d
      then Inr (d\<lparr>articles :=
                  map (\<lambda>old. if r_id old = r_id new then do_update_set new old else old)
                    (articles d)\<rparr>)
      else if fk_violation new d then Inl ForeignKeyViolation
      else Inr (d\<lparr>articles := articles d @
                  [new\<lparr>r_is_read := default_is_read, r_is_starred := default_is_starred\<rparr>]\<rparr>))"

text \<open>\<^verbatim>\<open>INSERT OR IGNORE INTO articles (... twelve columns ...) VALUES (...)\<close>.  A row whose id
  is taken is skipped; \<^verbatim>\<open>OR IGNORE\<close> does not cover the foreign key.\<close>

definition insert_or_ignore_article :: "article_row \<Rightarrow> db \<Rightarrow> store_error + db" where
  "insert_or_ignore_article new d =
     (if r_id new \<in> article_ids d then Inr d
      else if fk_violation new d then Inl ForeignKeyViolation
      else Inr (d\<lparr>articles := articles d @ [new]\<rparr>))"

text \<open>\<^verbatim>\<open>ORDER BY published_ts DESC, fetched_at DESC\<close>.  SQLite leaves the order of rows with
  equal keys open; here they stay in table order.\<close>

definition order_key :: "article_row \<Rightarrow> int \<times> int" where
  "order_key r = (- r_published_ts r, - r_fetched_at r)"

definition order_by_ts_desc :: "article_row list \<Rightarrow> article_row list" where
  "order_by_ts_desc rows = sort_key order_key rows"

text \<open>\<^verbatim>\<open>DELETE FROM articles WHERE is_starred = 0 AND feed_url = $1 AND id NOT IN (SELECT id
  FROM articles WHERE is_starred = 0 AND feed_url = $1 ORDER BY published_ts DESC,
  fetched_at DESC LIMIT n)\<close>; \<^verbatim>\<open>db.js\<close> writes the limit 500 into the text.\<close>

definition prunable :: "string \<Rightarrow> article_row \<Rightarrow> bool" where
  "prunable u r \<longleftrightarrow> r_is_starred r = 0 \<and> r_feed_url r = u"

definition newest_ids :: "string \<Rightarrow> nat \<Rightarrow> article_row list \<Rightarrow> string list" where
  "newest_ids u n rows = map r_id (take n (order_by_ts_desc (filter (prunable u) rows)))"

definition delete_beyond_limit :: "string \<Rightarrow> nat \<Rightarrow> db \<Rightarrow> db" where
  "delete_beyond_limit u n d =
     d\<lparr>articles :=
         filter (\<lambda>r. \<not> (prunable u r \<and> r_id r \<notin> set (newest_ids u n (articles d))))
           (articles d)\<rparr>"

subsection \<open>removeFeed\<close>

definition removeFeed :: "string \<Rightarrow> db \<Rightarrow> db" where
  "removeFeed u d = delete_feed u d"

subsection \<open>listArticles and rowToArticle\<close>

text \<open>The object built by \<^verbatim>\<open>rowToArticle\<close>: ten properties, the two flags as booleans.\<close>

record article =
  a_id :: string
  a_feedUrl :: string
  a_feedName :: string
  a_title :: string
  a_link :: string
  a_published :: string
  a_content :: string
  a_author :: string
  a_is_read :: bool
  a_is_starred :: bool

text \<open>\<^verbatim>\<open>!!x\<close> on a number is false exactly for 0.\<close>

definition rowToArticle :: "article_row \<Rightarrow> article" where
  "rowToArticle r =
     \<lparr>a_id = r_id r, a_feedUrl = r_feed_url r, a_feedName = r_feed_name r,
      a_title = r_title r, a_link = r_link r, a_published = r_published r,
      a_content = r_content r, a_author = r_author r,
      a_is_read = (r_is_read r \<noteq> 0), a_is_starred = (r_is_starred r \<noteq> 0)\<rparr>"

text \<open>\<^verbatim>\<open>listArticles({ feedUrl, filter } = {})\<close>: each of the two properties may be absent
  (\<open>None\<close>).  \<^verbatim>\<open>if (feedUrl)\<close> is false for an absent and for an empty string.  The \<^verbatim>\<open>WHERE\<close>
  clause is the conjunction of the collected conditions.\<close>

definition conditions :: "string option \<Rightarrow> string option \<Rightarrow> (article_row \<Rightarrow> bool) list" where
  "conditions feedUrl filt =
     (case feedUrl of
        None \<Rightarrow> []
      | Some u \<Rightarrow> if u \<noteq> [] then [\<lambda>r. r_feed_url r = u] else []) @
     (if filt = Some ''unread'' then [\<lambda>r. r_is_read r = 0]
      else if filt = Some ''starred'' then [\<lambda>r. r_is_starred r = 1]
      else [])"

definition select_articles :: "(article_row \<Rightarrow> bool) list \<Rightarrow> db \<Rightarrow> article_row list" where
  "select_articles conds d =
     order_by_ts_desc (filter (\<lambda>r. list_all (\<lambda>c. c r) conds) (articles d))"

definition listArticles :: "string option \<Rightarrow> string option \<Rightarrow> db \<Rightarrow> article list" where
  "listArticles feedUrl filt d = map rowToArticle (select_articles (conditions feedUrl filt) d)"

subsection \<open>upsertArticles\<close>

text \<open>\<^verbatim>\<open>`${feedUrl}::${item.link || item.title}`\<close>\<close>

definition article_id :: "string \<Rightarrow> item \<Rightarrow> string" where
  "article_id feedUrl it = feedUrl @ ''::'' @ (if i_link it \<noteq> [] then i_link it else i_title it)"

text \<open>\<^verbatim>\<open>item.published ? new Date(item.published).getTime() || 0 : 0\<close>.  The date parser of
  the JavaScript engine is a parameter \<open>getTime\<close>: \<open>None\<close> stands for \<^verbatim>\<open>NaN\<close>.\<close>

definition publishedTs :: "(string \<Rightarrow> int option) \<Rightarrow> string \<Rightarrow> int" where
  "publishedTs getTime published =
     (if published \<noteq> []
      then (case getTime published of None \<Rightarrow> 0 | Some t \<Rightarrow> if t \<noteq> 0 then t else 0)
      else 0)"

text \<open>The ten values bound to the statement for one entry; \<open>now\<close> is \<^verbatim>\<open>Date.now()\<close>, read
  once per call.\<close>

definition item_row ::
  "(string \<Rightarrow> int option) \<Rightarrow> int \<Rightarrow> string \<Rightarrow> string \<Rightarrow> item \<Rightarrow> article_row" where
  "item_row getTime now feedUrl feedName it =
     \<lparr>r_id = article_id feedUrl it, r_feed_url = feedUrl, r_feed_name = feedName,
      r_title = i_title it, r_link = i_link it, r_published = i_published it,
      r_published_ts = publishedTs getTime (i_published it),
      r_content = i_content it, r_author = i_author it,
      r_is_read = default_is_read, r_is_starred = default_is_starred,
      r_fetched_at = now\<rparr>"

text \<open>The \<^verbatim>\<open>for\<close> loop.  Each statement commits on its own; a failing statement rejects the
  call and leaves the statements before it applied.\<close>

fun upsert_items ::
  "(string \<Rightarrow> int option) \<Rightarrow> int \<Rightarrow> string \<Rightarrow> string \<Rightarrow> item list \<Rightarrow> db \<Rightarrow> store_error option \<times> db"
  where
  "upsert_items getTime now feedUrl feedName [] d = (None, d)"
| "upsert_items getTime now feedUrl feedName (it # its) d =
     (case upsert_article (item_row getTime now feedUrl feedName it) d of
        Inl e \<Rightarrow> (Some e, d)
      | Inr d' \<Rightarrow> upsert_items getTime now feedUrl feedName its d')"

definition upsertArticles ::
  "(string \<Rightarrow> int option) \<Rightarrow> int \<Rightarrow> string \<Rightarrow> string \<Rightarrow> item list \<Rightarrow> db \<Rightarrow> store_error option \<times> db"
  where
  "upsertArticles getTime now feedUrl feedName items d =
     (case upsert_items getTime now feedUrl feedName items d of
        (Some e, d') \<Rightarrow> (Some e, d')
      | (None, d') \<Rightarrow> (None, delete_beyond_limit feedUrl 500 d'))"

subsection \<open>addFeed and the flag mutations\<close>

text \<open>\<^verbatim>\<open>addFeed({ url, name, addedAt })\<close>: \<^verbatim>\<open>new Date(addedAt).getTime()\<close>, then the
  \<^verbatim>\<open>INSERT OR IGNORE\<close> into \<^verbatim>\<open>feeds\<close>.\<close>

definition addFeed :: "(string \<Rightarrow> int option) \<Rightarrow> string \<Rightarrow> string \<Rightarrow> string \<Rightarrow> db \<Rightarrow> db" where
  "addFeed getTime u n addedAt d =
     insert_or_ignore_feed \<lparr>f_url = u, f_name = n, f_added_at = getTime addedAt\<rparr> d"

text \<open>\<^verbatim>\<open>UPDATE articles SET ... WHERE ...\<close>\<close>

definition update_articles :: "(article_row \<Rightarrow> bool) \<Rightarrow> (article_row \<Rightarrow> article_row) \<Rightarrow> db \<Rightarrow> db" where
  "update_articles cond set_cols d =
     d\<lparr>articles := map (\<lambda>r. if cond r then set_cols r else r) (articles d)\<rparr>"

text \<open>\<^verbatim>\<open>SET is_read = 1 WHERE id = $1\<close>;
  \<^verbatim>\<open>SET is_read = CASE WHEN is_read = 1 THEN 0 ELSE 1 END WHERE id = $1\<close>;
  \<^verbatim>\<open>SET is_starred = CASE WHEN is_starred = 1 THEN 0 ELSE 1 END WHERE id = $1\<close>.\<close>

definition markRead :: "string \<Rightarrow> db \<Rightarrow> db" where
  "markRead articleId d = update_articles (\<lambda>r. r_id r = articleId) (\<lambda>r. r\<lparr>r_is_read := 1\<rparr>) d"

definition toggleRead :: "string \<Rightarrow> db \<Rightarrow> db" where
  "toggleRead articleId d =
     update_articles (\<lambda>r. r_id r = articleId)
       (\<lambda>r. r\<lparr>r_is_read := (if r_is_read r = 1 then 0 else 1)\<rparr>) d"

definition toggleStar :: "string \<Rightarrow> db \<Rightarrow> db" where
  "toggleStar articleId d =
     update_articles (\<lambda>r. r_id r = articleId)
       (\<lambda>r. r\<lparr>r_is_starred := (if r_is_starred r = 1 then 0 else 1)\<rparr>) d"

text \<open>\<^verbatim>\<open>markAllRead(articleIds)\<close> returns at once for an empty list.  Otherwise it issues one
  \<^verbatim>\<open>UPDATE articles SET is_read = 1 WHERE id IN ($1, ..., $n)\<close> with one variable for each
  id of the list.  SQLite rejects a statement with more variables than its limit
  \<^verbatim>\<open>SQLITE_MAX_VARIABLE_NUMBER\<close>, which is fixed when the library is built (32766 unless
  chosen otherwise) and is a parameter here.  The other statements of \<^verbatim>\<open>db.js\<close> have at
  most twelve variables.\<close>

definition markAllRead :: "nat \<Rightarrow> string list \<Rightarrow> db \<Rightarrow> store_error + db" where
  "markAllRead max_variable_number articleIds d =
     (if length articleIds = 0 then Inr d
      else if length articleIds > max_variable_number then Inl TooManyVariables
      else Inr (update_articles (\<lambda>r. r_id r \<in> set articleIds) (\<lambda>r. r\<lparr>r_is_read := 1\<rparr>) d))"

subsection \<open>importFromLocalStorageIfNeeded\<close>

text \<open>The legacy snapshot in \<^verbatim>\<open>localStorage\<close>, in the shapes the earlier version of the
  application wrote.  \<^verbatim>\<open>getLocalStorage\<close> gives \<^verbatim>\<open>null\<close> (\<open>None\<close>) for a key that is absent,
  empty or not JSON.  \<^verbatim>\<open>rss-read\<close> and \<^verbatim>\<open>rss-starred\<close> are objects from ids to flags, kept
  here as the list of ids with a truthy flag.  An absent \<^verbatim>\<open>addedAt\<close> is the empty string.\<close>

record legacy_feed =
  lf_url :: string
  lf_name :: string
  lf_addedAt :: string

record legacy_article =
  la_id :: string
  la_feedUrl :: string
  la_feedName :: string
  la_title :: string
  la_link :: string
  la_published :: string
  la_content :: string
  la_author :: string

record local_storage =
  rss_feeds :: "legacy_feed list option"
  rss_articles :: "legacy_article list option"
  rss_read :: "string list option"
  rss_starred :: "string list option"

definition marker_key :: string where
  "marker_key = ''migrated_from_localstorage''"

text \<open>\<^verbatim>\<open>SELECT value FROM meta WHERE key = 'migrated_from_localstorage'\<close>, then
  \<^verbatim>\<open>rows.length > 0 && rows[0].value === "1"\<close>\<close>

definition migrated :: "db \<Rightarrow> bool" where
  "migrated d =
     (case map snd (filter (\<lambda>kv. fst kv = marker_key) (meta d)) of
        [] \<Rightarrow> False
      | v # _ \<Rightarrow> v = ''1'')"

text \<open>\<^verbatim>\<open>INSERT OR REPLACE INTO meta (key, value) VALUES ('migrated_from_localstorage', '1')\<close>\<close>

definition set_marker :: "db \<Rightarrow> db" where
  "set_marker d = d\<lparr>meta := filter (\<lambda>kv. fst kv \<noteq> marker_key) (meta d) @ [(marker_key, ''1'')]\<rparr>"

definition hasData :: "local_storage \<Rightarrow> bool" where
  "hasData ls \<longleftrightarrow>
     (case rss_feeds ls of None \<Rightarrow> False | Some fs \<Rightarrow> length fs > 0) \<or>
     (case rss_articles ls of None \<Rightarrow> False | Some as \<Rightarrow> length as > 0)"

text \<open>The statements the body issues, in order.  They depend on the snapshot and the clock
  only, not on the store.\<close>

datatype stmt = InsertFeed feed_row | InsertArticle article_row | SetMarker

text \<open>\<^verbatim>\<open>new Date(feed.addedAt || new Date().toISOString()).getTime()\<close>; \<open>nowISO i\<close> is the
  clock as read in iteration \<open>i\<close> of the loop over the feeds.\<close>

definition legacy_feed_row ::
  "(string \<Rightarrow> int option) \<Rightarrow> (nat \<Rightarrow> string) \<Rightarrow> nat \<times> legacy_feed \<Rightarrow> feed_row" where
  "legacy_feed_row getTime nowISO p =
     (case p of (i, f) \<Rightarrow>
        \<lparr>f_url = lf_url f, f_name = lf_name f,
         f_added_at = getTime (if lf_addedAt f \<noteq> [] then lf_addedAt f else nowISO i)\<rparr>)"

definition legacy_flag :: "string list option \<Rightarrow> string \<Rightarrow> int" where
  "legacy_flag flags i = (case flags of None \<Rightarrow> 0 | Some ids \<Rightarrow> if i \<in> set ids then 1 else 0)"

definition legacy_article_row ::
  "(string \<Rightarrow> int option) \<Rightarrow> int \<Rightarrow> local_storage \<Rightarrow> legacy_article \<Rightarrow> article_row" where
  "legacy_article_row getTime now ls a =
     \<lparr>r_id = la_id a, r_feed_url = la_feedUrl a, r_feed_name = la_feedName a,
      r_title = la_title a, r_link = la_link a, r_published = la_published a,
      r_published_ts = publishedTs getTime (la_published a),
      r_content = la_content a, r_author = la_author a,
      r_is_read = legacy_flag (rss_read ls) (la_id a),
      r_is_starred = legacy_flag (rss_starred ls) (la_id a),
      r_fetched_at = now\<rparr>"

definition import_stmts ::
  "(string \<Rightarrow> int option) \<Rightarrow> (nat \<Rightarrow> string) \<Rightarrow> int \<Rightarrow> local_storage \<Rightarrow> stmt list" where
  "import_stmts getTime nowISO now ls =
     (case rss_feeds ls of
        None \<Rightarrow> []
      | Some fs \<Rightarrow> map (\<lambda>p. InsertFeed (legacy_feed_row getTime nowISO p)) (enumerate 0 fs)) @
     (case rss_articles ls of
        None \<Rightarrow> []
      | Some as \<Rightarrow> map (\<lambda>a. InsertArticle (legacy_article_row getTime now ls a)) as) @
     [SetMarker]"

fun exec :: "stmt \<Rightarrow> db \<Rightarrow> store_error + db" where
  "exec (InsertFeed f) d = Inr (insert_or_ignore_feed f d)"
| "exec (InsertArticle r) d = insert_or_ignore_article r d"
| "exec SetMarker d = Inr (set_marker d)"

fun exec_all :: "stmt list \<Rightarrow> db \<Rightarrow> store_error option \<times> db" where
  "exec_all [] d = (None, d)"
| "exec_all (s # ss) d = (case exec s d of Inl e \<Rightarrow> (Some e, d) | Inr d' \<Rightarrow> exec_all ss d')"

text \<open>The four \<^verbatim>\<open>localStorage.removeItem\<close> calls.\<close>

definition remove_legacy :: "local_storage \<Rightarrow> local_storage" where
  "remove_legacy ls =
     ls\<lparr>rss_feeds := None, rss_articles := None, rss_read := None, rss_starred := None\<rparr>"

definition importFromLocalStorageIfNeeded ::
  "(string \<Rightarrow> int option) \<Rightarrow> (nat \<Rightarrow> string) \<Rightarrow> int \<Rightarrow> db \<times> local_storage
     \<Rightarrow> store_error option \<times> db \<times> local_storage" where
  "importFromLocalStorageIfNeeded getTime nowISO now w =
     (case w of (d, ls) \<Rightarrow>
        if migrated d then (None, d, ls)
        else if \<not> hasData ls then (None, set_marker d, ls)
        else (case exec_all (import_stmts getTime nowISO now ls) d of
                (Some e, d') \<Rightarrow> (Some e, d', ls)
              | (None, d') \<Rightarrow> (None, d', remove_legacy ls)))"

text \<open>A run of the same function that the process does not survive: it stops after at most
  \<open>k\<close> statements have committed, before anything is removed from \<^verbatim>\<open>localStorage\<close>.\<close>

definition import_interrupted ::
  "nat \<Rightarrow> (string \<Rightarrow> int option) \<Rightarrow> (nat \<Rightarrow> string) \<Rightarrow> int \<Rightarrow> db \<times> local_storage
     \<Rightarrow> db \<times> local_storage" where
  "import_interrupted k getTime nowISO now w =
     (case w of (d, ls) \<Rightarrow>
        if migrated d then (d, ls)
        else if \<not> hasData ls then (snd (exec_all (take k [SetMarker]) d), ls)
        else (snd (exec_all (take k (import_stmts getTime nowISO now ls)) d), ls))"

section \<open>The write lock (withWriteLock)\<close>

text \<open>
  Every mutating function of \<^verbatim>\<open>db.js\<close> passes its work to \<^verbatim>\<open>withWriteLock\<close> as a function
  \<^verbatim>\<open>fn\<close> that issues statements one after the other, each awaited; the first statement that
  fails rejects the promise of \<^verbatim>\<open>fn\<close> and the statements after it are not issued.  A
  statement is atomic: it fails and changes nothing, or gives the next store.
\<close>

type_synonym statement = "db \<Rightarrow> store_error + db"

fun run :: "statement list \<Rightarrow> db \<Rightarrow> store_error option \<times> db" where
  "run [] d = (None, d)"
| "run (st # rest) d = (case st d of Inl e \<Rightarrow> (Some e, d) | Inr d' \<Rightarrow> run rest d')"

subsection \<open>Promises\<close>

datatype promise = Pending | Resolved | Failed store_error

text \<open>A call of \<^verbatim>\<open>withWriteLock\<close>: its \<^verbatim>\<open>fn\<close>, and how far \<^verbatim>\<open>fn\<close> has got: not called yet, called
  with some statements still to issue, or returned with its promise fulfilled (\<open>None\<close>) or
  rejected.\<close>

datatype phase = Queued | Running "statement list" | Settled "store_error option"

record task =
  body :: "statement list"
  phase :: phase

text \<open>The promise that \<^verbatim>\<open>fn()\<close> returns.\<close>

definition fn_promise :: "phase \<Rightarrow> promise" where
  "fn_promise ph =
     (case ph of
        Queued \<Rightarrow> Pending
      | Running rest \<Rightarrow> Pending
      | Settled None \<Rightarrow> Resolved
      | Settled (Some e) \<Rightarrow> Failed e)"

text \<open>\<^verbatim>\<open>p.then(() => fn())\<close>: pending while \<open>p\<close> is; rejected, without a call of \<^verbatim>\<open>fn\<close>, when
  \<open>p\<close> is rejected; the promise of \<^verbatim>\<open>fn()\<close> when \<open>p\<close> is fulfilled.\<close>

definition then_call :: "promise \<Rightarrow> promise \<Rightarrow> promise" where
  "then_call p q = (case p of Pending \<Rightarrow> Pending | Failed e \<Rightarrow> Failed e | Resolved \<Rightarrow> q)"

text \<open>\<^verbatim>\<open>p.catch((e) => { throw e; })\<close> and \<^verbatim>\<open>p.catch(() => {})\<close>\<close>

definition catch_rethrow :: "promise \<Rightarrow> promise" where
  "catch_rethrow p = (case p of Failed e \<Rightarrow> Failed e | Pending \<Rightarrow> Pending | Resolved \<Rightarrow> Resolved)"

definition catch_ignore :: "promise \<Rightarrow> promise" where
  "catch_ignore p = (case p of Failed e \<Rightarrow> Resolved | Pending \<Rightarrow> Pending | Resolved \<Rightarrow> Resolved)"

text \<open>\<^verbatim>\<open>const next = writeLock.then(() => fn()).catch((e) => { throw e; })\<close>, the promise the
  caller gets, and \<^verbatim>\<open>writeLock = next.catch(() => {})\<close>, the lock the next call will find.\<close>

definition next_promise :: "promise \<Rightarrow> phase \<Rightarrow> promise" where
  "next_promise writeLock ph = catch_rethrow (then_call writeLock (fn_promise ph))"

definition lock_after :: "promise \<Rightarrow> phase \<Rightarrow> promise" where
  "lock_after writeLock ph = catch_ignore (next_promise writeLock ph)"

text \<open>The value of \<^verbatim>\<open>writeLock\<close> that the \<open>i\<close>-th call found, when the first call found \<open>w\<close>.\<close>

fun lock_before :: "promise \<Rightarrow> task list \<Rightarrow> nat \<Rightarrow> promise" where
  "lock_before w [] i = w"
| "lock_before w (t # ts) 0 = w"
| "lock_before w (t # ts) (Suc i) = lock_before (lock_after w (phase t)) ts i"

subsection \<open>The event loop\<close>

text \<open>
  The store, the calls of \<^verbatim>\<open>withWriteLock\<close> so far in the order they were made, and for
  every statement issued the index of the call that issued it.  \<^verbatim>\<open>writeLock\<close> starts as
  \<^verbatim>\<open>Promise.resolve()\<close>.  At any moment a new call may come in; the callback of a \<^verbatim>\<open>then\<close> may
  run once the lock its call found is fulfilled; a call that is running may issue its next
  statement, or return when none is left.  Calls interleave in any way these rules allow.
\<close>

record sys =
  store :: db
  tasks :: "task list"
  trace :: "nat list"

definition init :: "db \<Rightarrow> sys" where
  "init d = \<lparr>store = d, tasks = [], trace = []\<rparr>"

definition set_phase :: "nat \<Rightarrow> phase \<Rightarrow> task list \<Rightarrow> task list" where
  "set_phase i ph ts = ts[i := (ts ! i)\<lparr>phase := ph\<rparr>]"

inductive step :: "sys \<Rightarrow> sys \<Rightarrow> bool" where
  submit:
    "step s (s\<lparr>tasks := tasks s @ [\<lparr>body = fn, phase = Queued\<rparr>]\<rparr>)"
| start:
    "i < length (tasks s) \<Longrightarrow> phase (tasks s ! i) = Queued \<Longrightarrow>
     lock_before Resolved (tasks s) i = Resolved \<Longrightarrow>
     step s (s\<lparr>tasks := set_phase i (Running (body (tasks s ! i))) (tasks s)\<rparr>)"
| exec_ok:
    "i < length (tasks s) \<Longrightarrow> phase (tasks s ! i) = Running (st # rest) \<Longrightarrow>
     st (store s) = Inr d' \<Longrightarrow>
     step s (s\<lparr>store := d', tasks := set_phase i (Running rest) (tasks s),
              trace := trace s @ [i]\<rparr>)"
| exec_fail:
    "i < length (tasks s) \<Longrightarrow> phase (tasks s ! i) = Running (st # rest) \<Longrightarrow>
     st (store s) = Inl e \<Longrightarrow>
     step s (s\<lparr>tasks := set_phase i (Settled (Some e)) (tasks s), trace := trace s @ [i]\<rparr>)"
| finish:
    "i < length (tasks s) \<Longrightarrow> phase (tasks s ! i) = Running [] \<Longrightarrow>
     step s (s\<lparr>tasks := set_phase i (Settled None) (tasks s)\<rparr>)"

code_pred step .

inductive reachable :: "db \<Rightarrow> sys \<Rightarrow> bool" for d0 :: db where
  initial: "reachable d0 (init d0)"
| after: "reachable d0 s \<Longrightarrow> step s s' \<Longrightarrow> reachable d0 s'"

code_pred reachable .

subsection \<open>Serial execution in submission order\<close>

text \<open>
  \<open>serial d ts st\<close>: the calls \<open>ts\<close> have run one at a time, in order, from the store \<open>d\<close> to
  the store \<open>st\<close>.  The calls before the first unsettled one have the results that their
  bodies give when run one after the other; the first unsettled call, if it is running,
  will end as if it had run alone after them; no later call has started.
\<close>

definition settled :: "task \<Rightarrow> bool" where
  "settled t = (case phase t of Settled r \<Rightarrow> True | Queued \<Rightarrow> False | Running rest \<Rightarrow> False)"

fun serial :: "db \<Rightarrow> task list \<Rightarrow> db \<Rightarrow> bool" where
  "serial d [] st = (st = d)"
| "serial d (t # ts) st =
     (case phase t of
        Settled r \<Rightarrow> r = fst (run (body t) d) \<and> serial (snd (run (body t) d)) ts st
      | Running rest \<Rightarrow> run rest st = run (body t) d \<and> list_all (\<lambda>t'. phase t' = Queued) ts
      | Queued \<Rightarrow> st = d \<and> list_all (\<lambda>t'. phase t' = Queued) ts)"

text \<open>The bodies that \<^verbatim>\<open>upsertArticles\<close> and the legacy import pass to \<^verbatim>\<open>withWriteLock\<close>.\<close>

definition upsertArticles_body ::
  "(string \<Rightarrow> int option) \<Rightarrow> int \<Rightarrow> string \<Rightarrow> string \<Rightarrow> item list \<Rightarrow> statement list" where
  "upsertArticles_body getTime now feedUrl feedName its =
     map (\<lambda>it. upsert_article (item_row getTime now feedUrl feedName it)) its @
     [\<lambda>d. Inr (delete_beyond_limit feedUrl 500 d)]"

definition import_body :: "stmt list \<Rightarrow> statement list" where
  "import_body ss = map exec ss"

section \<open>Properties and example stores\<close>

text \<open>Newest first: \<^verbatim>\<open>publishedTs\<close> descending, ties broken by \<^verbatim>\<open>fetchedAt\<close> descending.\<close>

definition at_least_as_new :: "article_row \<Rightarrow> article_row \<Rightarrow> bool" where
  "at_least_as_new r s \<longleftrightarrow>
     r_published_ts r > r_published_ts s \<or>
     (r_published_ts r = r_published_ts s \<and> r_fetched_at r \<ge> r_fetched_at s)"

definition newest_first :: "article_row list \<Rightarrow> bool" where
  "newest_first rows = sorted_wrt at_least_as_new rows"

text \<open>Among \<open>rows\<close>, the unstarred rows of feed \<open>u\<close> that are at least as new as \<open>r\<close> (\<open>r\<close>
  itself is one of them when it is such a row), and those that are strictly newer.\<close>

definition not_older :: "string \<Rightarrow> article_row \<Rightarrow> article_row list \<Rightarrow> article_row list" where
  "not_older u r rows = filter (\<lambda>s. prunable u s \<and> at_least_as_new s r) rows"

definition newer :: "string \<Rightarrow> article_row \<Rightarrow> article_row list \<Rightarrow> article_row list" where
  "newer u r rows = filter (\<lambda>s. prunable u s \<and> \<not> at_least_as_new r s) rows"

text \<open>The flags hold 0 or 1: what every statement of \<^verbatim>\<open>db.js\<close> writes.\<close>

definition flags_ok :: "db \<Rightarrow> bool" where
  "flags_ok d = list_all (\<lambda>r. r_is_read r \<in> {0, 1} \<and> r_is_starred r \<in> {0, 1}) (articles d)"

text \<open>The Article of the data model that a stored row holds: its columns under the names
  of the data model, and a flag that is true when its column holds 1.\<close>

definition stored_article :: "article_row \<Rightarrow> article" where
  "stored_article r =
     \<lparr>a_id = r_id r, a_feedUrl = r_feed_url r, a_feedName = r_feed_name r,
      a_title = r_title r, a_link = r_link r, a_published = r_published r,
      a_content = r_content r, a_author = r_author r,
      a_is_read = (r_is_read r = 1), a_is_starred = (r_is_starred r = 1)\<rparr>"

text \<open>\<open>out\<close> lists exactly the stored Articles that satisfy \<open>F\<close>, each once, newest first.\<close>

definition lists_exactly :: "(article \<Rightarrow> bool) \<Rightarrow> db \<Rightarrow> article list \<Rightarrow> bool" where
  "lists_exactly F d out \<longleftrightarrow>
     (\<exists>rows. out = map stored_article rows \<and>
             mset rows = mset (filter (\<lambda>r. F (stored_article r)) (articles d)) \<and>
             newest_first rows)"

text \<open>A small store: two feeds, three articles.\<close>

definition ex_row :: "string \<Rightarrow> string \<Rightarrow> int \<Rightarrow> int \<Rightarrow> int \<Rightarrow> int \<Rightarrow> article_row" where
  "ex_row i u ts fetched rd st =
     \<lparr>r_id = i, r_feed_url = u, r_feed_name = ''Feed'', r_title = ''Title'', r_link = ''l'',
      r_published = ''p'', r_published_ts = ts, r_content = ''c'', r_author = ''w'',
      r_is_read = rd, r_is_starred = st, r_fetched_at = fetched\<rparr>"

definition ex_feed :: "string \<Rightarrow> feed_row" where
  "ex_feed u = \<lparr>f_url = u, f_name = ''Feed'', f_added_at = Some 1\<rparr>"

definition ex_db :: db where
  "ex_db = \<lparr>feeds = [ex_feed ''fa'', ex_feed ''fb''],
            articles = [ex_row ''fa::1'' ''fa'' 10 100 1 1, ex_row ''fb::1'' ''fb'' 30 100 0 0,
                        ex_row ''fa::2'' ''fa'' 20 100 0 0],
            meta = []\<rparr>"

text \<open>The last entry of a list whose derived id is \<open>i\<close>, and a stored row after the loop of
  \<^verbatim>\<open>upsertArticles\<close> has passed over the list: the statement of that entry has overwritten
  its descriptive columns.\<close>

definition last_entry :: "string \<Rightarrow> item list \<Rightarrow> string \<Rightarrow> item option" where
  "last_entry feedUrl items i =
     (case filter (\<lambda>it. article_id feedUrl it = i) items of
        [] \<Rightarrow> None
      | m # ms \<Rightarrow> Some (last (m # ms)))"

definition refreshed ::
  "(string \<Rightarrow> int option) \<Rightarrow> int \<Rightarrow> string \<Rightarrow> string \<Rightarrow> item list \<Rightarrow> article_row \<Rightarrow> article_row" where
  "refreshed getTime now feedUrl feedName items r =
     (case last_entry feedUrl items (r_id r) of
        None \<Rightarrow> r
      | Some it \<Rightarrow> do_update_set (item_row getTime now feedUrl feedName it) r)"

text \<open>A store at the cap: one feed with 500 unstarred articles, published at 1, ..., 500.
  An entry without a date, which is older than all of them, and the row its first upsert
  inserts.\<close>

definition big_row :: "nat \<Rightarrow> article_row" where
  "big_row k = ex_row (''f::a'' @ replicate k CHR ''b'') ''f'' (int k + 1) 5 0 0"

definition big_db :: db where
  "big_db = \<lparr>feeds = [ex_feed ''f''], articles = map big_row [0..<500], meta = []\<rparr>"

definition no_date :: "string \<Rightarrow> int option" where
  "no_date s = None"

definition old_item :: item where
  "old_item = \<lparr>i_title = ''T'', i_link = ''x'', i_published = [], i_content = ''c'', i_author = ''w''\<rparr>"

definition old_row :: "int \<Rightarrow> article_row" where
  "old_row now = (item_row no_date now ''f'' ''F'' old_item)
                   \<lparr>r_is_read := default_is_read, r_is_starred := default_is_starred\<rparr>"

text \<open>An entry that the small store already holds as \<open>fa::1\<close>, with a new title.\<close>

definition new_item :: item where
  "new_item = \<lparr>i_title = ''New title'', i_link = ''1'', i_published = [], i_content = ''new'', i_author = ''w''\<rparr>"

text \<open>A store at the cap whose oldest article is read and not starred; a refresh that
  brings this article again and one new, dated entry.  \<open>year_date\<close> is a date parser that
  knows this one date.\<close>

definition stale_row :: article_row where
  "stale_row = ex_row ''f::x'' ''f'' 0 5 1 0"

definition stale_db :: db where
  "stale_db = \<lparr>feeds = [ex_feed ''f''], articles = stale_row # map big_row [0..<499], meta = []\<rparr>"

definition fresh_item :: item where
  "fresh_item = \<lparr>i_title = ''N'', i_link = ''y'', i_published = ''2024'', i_content = ''c'', i_author = ''w''\<rparr>"

definition year_date :: "string \<Rightarrow> int option" where
  "year_date s = (if s = ''2024'' then Some 1704067200000 else None)"

text \<open>The entry of the oldest article again, now with a date as new as that of the new
  entry.\<close>

definition dated_item :: item where
  "dated_item = \<lparr>i_title = ''T'', i_link = ''x'', i_published = ''2024'', i_content = ''c'', i_author = ''w''\<rparr>"

text \<open>Two feeds whose urls differ by a suffix \<open>::b\<close>: the entry \<open>b::c\<close> of the first and
  the entry \<open>c\<close> of the second derive the same id.\<close>

definition bug_db :: db where
  "bug_db = \<lparr>feeds = [ex_feed ''http://h/a'', ex_feed ''http://h/a::b''],
             articles = [ex_row ''http://h/a::b::c'' ''http://h/a'' 10 100 1 0],
             meta = []\<rparr>"

definition bug_item :: item where
  "bug_item = \<lparr>i_title = ''Other'', i_link = ''c'', i_published = [], i_content = ''other'', i_author = ''z''\<rparr>"

text \<open>A legacy snapshot: two feeds, one of them already subscribed; two articles, one of
  them already stored under the same id.  \<open>legacy_result\<close> is what a retry returns after a
  first run that stopped when three statements had committed.\<close>

definition iso_clock :: "nat \<Rightarrow> string" where
  "iso_clock i = ''2026-01-01T00:00:00.000Z''"

definition legacy_ls :: local_storage where
  "legacy_ls =
     \<lparr>rss_feeds = Some [\<lparr>lf_url = ''fa'', lf_name = ''A'', lf_addedAt = []\<rparr>,
                        \<lparr>lf_url = ''fc'', lf_name = ''C'', lf_addedAt = ''2024''\<rparr>],
      rss_articles = Some [\<lparr>la_id = ''fa::1'', la_feedUrl = ''fa'', la_feedName = ''A'',
                             la_title = ''Legacy'', la_link = ''1'', la_published = [],
                             la_content = ''old'', la_author = ''w''\<rparr>,
                           \<lparr>la_id = ''fc::9'', la_feedUrl = ''fc'', la_feedName = ''C'',
                             la_title = ''Nine'', la_link = ''9'', la_published = ''2024'',
                             la_content = ''c'', la_author = ''w''\<rparr>],
      rss_read = Some [''fc::9''],
      rss_starred = None\<rparr>"

definition legacy_result :: "store_error option \<times> db \<times> local_storage" where
  "legacy_result =
     importFromLocalStorageIfNeeded year_date iso_clock 8
       (import_interrupted 3 year_date iso_clock 7 (ex_db, legacy_ls))"

text \<open>Two documents: an RSS channel whose item has no title, and an Atom feed whose entry
  has no title, no \<open>published\<close> and an \<open>updated\<close> element.  An element without children.\<close>

definition ex_rss_doc :: node where
  "ex_rss_doc =
     Elem [] ''rss'' [(''version'', ''2.0'')]
       [Elem [] ''channel'' []
          [Elem [] ''title'' [] [Text ''News''],
           Elem [] ''item'' []
             [Elem [] ''link'' [] [Text ''http://n/1''],
              Elem [] ''pubDate'' [] [Text ''Mon, 01 Jan 2024'']]]]"

definition ex_entry :: node where
  "ex_entry =
     Elem [] ''entry'' []
       [Elem [] ''updated'' [] [Text ''2024-01-01''],
        Elem [] ''link'' [(''href'', ''http://b/1'')] []]"

definition ex_atom_doc :: node where
  "ex_atom_doc = Elem [] ''feed'' [] [Elem [] ''title'' [] [Text ''Blog''], ex_entry]"

definition ex_updated :: node where
  "ex_updated = Elem [] ''updated'' [] [Text ''2024-01-01'']"

definition ex_empty :: node where
  "ex_empty = Elem [] ''item'' [] []"

text \<open>The value of \<^verbatim>\<open>a || b\<close> when neither side throws.\<close>

definition pick :: "string option \<Rightarrow> string \<Rightarrow> string" where
  "pick a b = (case a of None \<Rightarrow> b | Some s \<Rightarrow> if s \<noteq> [] then s else b)"

text \<open>The statements issued so far are in the order of their calls, and every call that has
  issued one has been started.\<close>

definition traced :: "sys \<Rightarrow> bool" where
  "traced s \<longleftrightarrow> sorted (trace s) \<and>
     list_all (\<lambda>j. j < length (tasks s) \<and> phase (tasks s ! j) \<noteq> Queued) (trace s)"

text \<open>A run of two calls on the small store: the first fails on its only statement (its
  article references a feed that is not there), the second marks an article read.  Both
  are made before either starts.\<close>

definition fail_body :: "statement list" where
  "fail_body = [insert_or_ignore_article (ex_row ''zz::1'' ''zz'' 1 1 0 0)]"

definition read_body :: "statement list" where
  "read_body = [\<lambda>d. Inr (markRead ''fb::1'' d)]"

definition lock_run :: sys where
  "lock_run =
     \<lparr>store = markRead ''fb::1'' ex_db,
      tasks = [\<lparr>body = fail_body, phase = Settled (Some ForeignKeyViolation)\<rparr>,
               \<lparr>body = read_body, phase = Settled None\<rparr>],
      trace = [0, 1]\<rparr>"

section \<open>Theorems\<close>

subsection \<open>The example store\<close>

lemma wf_ex_db: "wf_db ex_db"
  by (simp add: wf_db_def ex_db_def ex_feed_def ex_row_def feed_urls_def)

subsection \<open>Ordering\<close>

lemma order_key_le: "order_key r \<le> order_key s \<longleftrightarrow> at_least_as_new r s"
  by (auto simp: order_key_def less_eq_prod_def at_least_as_new_def)

lemma sorted_order_by: "sorted (map order_key (order_by_ts_desc rows))"
  unfolding order_by_ts_desc_def by (rule sorted_sort_key)

lemma newest_first_order_by: "newest_first (order_by_ts_desc rows)"
  using sorted_order_by [of rows]
  unfolding newest_first_def sorted_map by (simp add: order_key_le)

lemma mset_order_by: "mset (order_by_ts_desc rows) = mset rows"
  by (simp add: order_by_ts_desc_def)

lemma set_order_by: "set (order_by_ts_desc rows) = set rows"
  by (simp add: order_by_ts_desc_def)

lemma length_order_by: "length (order_by_ts_desc rows) = length rows"
  by (simp add: order_by_ts_desc_def)

subsection \<open>removeFeed\<close>

text \<open>
  Claim C1.  In every store that satisfies the schema, \<open>removeFeed u\<close> deletes the feed row
  with url \<open>u\<close> and keeps the other feed rows; it deletes every article whose \<open>feed_url\<close> is
  \<open>u\<close> and keeps every article of another feed as it is, in place.
\<close>

theorem removeFeed_cascade:
  assumes "wf_db d"
  shows "feeds (removeFeed u d) = filter (\<lambda>f. f_url f \<noteq> u) (feeds d) \<and>
         articles (removeFeed u d) = filter (\<lambda>r. r_feed_url r \<noteq> u) (articles d)"
proof (cases "u \<in> feed_urls d")
  case True
  then show ?thesis by (simp add: removeFeed_def delete_feed_def)
next
  case False
  then have "\<forall>f \<in> set (feeds d). f_url f \<noteq> u" by (auto simp: feed_urls_def)
  moreover from False assms have "\<forall>r \<in> set (articles d). r_feed_url r \<noteq> u"
    by (auto simp: wf_db_def list_all_iff)
  ultimately show ?thesis using False by (simp add: removeFeed_def delete_feed_def)
qed

theorem removeFeed_cascade_witness:
  "wf_db ex_db \<and>
   feeds (removeFeed ''fa'' ex_db) = [ex_feed ''fb''] \<and>
   articles (removeFeed ''fa'' ex_db) = [ex_row ''fb::1'' ''fb'' 30 100 0 0]"
proof -
  have "filter (\<lambda>f. f_url f \<noteq> ''fa'') (feeds ex_db) = [ex_feed ''fb'']"
    by (simp add: ex_db_def ex_feed_def)
  moreover have "filter (\<lambda>r. r_feed_url r \<noteq> ''fa'') (articles ex_db) = [ex_row ''fb::1'' ''fb'' 30 100 0 0]"
    by (simp add: ex_db_def ex_row_def)
  ultimately show ?thesis
    using removeFeed_cascade [OF wf_ex_db, of "''fa''"] wf_ex_db by simp
qed

subsection \<open>listArticles\<close>

lemma flags_ok_ex_db: "flags_ok ex_db"
  by (simp add: flags_ok_def ex_db_def ex_row_def)

text \<open>Once the flags hold 0 or 1, the object that \<^verbatim>\<open>rowToArticle\<close> builds for a stored row is
  the Article the row holds, and the two conditions on the flag columns are conditions on
  the Article.\<close>

lemma rowToArticle_stored:
  assumes "flags_ok d" and "r \<in> set (articles d)"
  shows "rowToArticle r = stored_article r"
    and "(r_is_read r = 0) = (\<not> a_is_read (stored_article r))"
    and "(r_is_starred r = 1) = a_is_starred (stored_article r)"
  using assms by (auto simp: flags_ok_def list_all_iff rowToArticle_def stored_article_def)

lemma lists_exactly_select:
  assumes "flags_ok d"
    and "\<And>r. r \<in> set (articles d) \<Longrightarrow> list_all (\<lambda>c. c r) conds = F (stored_article r)"
  shows "lists_exactly F d (map rowToArticle (select_articles conds d))"
proof -
  let ?rows = "select_articles conds d"
  have sub: "set ?rows \<subseteq> set (articles d)"
    by (auto simp: select_articles_def set_order_by)
  then have "map rowToArticle ?rows = map stored_article ?rows"
    using rowToArticle_stored(1) [OF assms(1)] by (intro map_cong) auto
  moreover have "filter (\<lambda>r. list_all (\<lambda>c. c r) conds) (articles d) =
      filter (\<lambda>r. F (stored_article r)) (articles d)"
    using assms(2) by (intro filter_cong) auto
  then have "mset ?rows = mset (filter (\<lambda>r. F (stored_article r)) (articles d))"
    by (simp add: select_articles_def mset_order_by)
  moreover have "newest_first ?rows"
    by (simp add: select_articles_def newest_first_order_by)
  ultimately show ?thesis unfolding lists_exactly_def by blast
qed

text \<open>
  Claim C8.  In a store whose flags hold 0 or 1 (every write of \<^verbatim>\<open>db.js\<close> keeps them so),
  \<open>listArticles\<close> returns, with no filter, the Articles of all stored rows; with a
  (non-empty) feed url, those whose \<open>feedUrl\<close> is this url; with \<^verbatim>\<open>"unread"\<close>, those whose
  \<open>is_read\<close> is false; with \<^verbatim>\<open>"starred"\<close>, those whose \<open>is_starred\<close> is true.  It returns
  exactly these Articles, with all their fields, each once, ordered by \<open>published_ts\<close>
  descending and, among equal \<open>published_ts\<close>, by \<open>fetched_at\<close> descending.  A feed url
  together with \<^verbatim>\<open>"unread"\<close> or \<^verbatim>\<open>"starred"\<close> selects the Articles that satisfy both; an empty
  feed url, and any other filter string, is no condition.
\<close>

theorem listArticles_filter:
  assumes "flags_ok d"
  shows "lists_exactly (\<lambda>a. True) d (listArticles None None d) \<and>
         (u \<noteq> [] \<longrightarrow> lists_exactly (\<lambda>a. a_feedUrl a = u) d (listArticles (Some u) None d)) \<and>
         lists_exactly (\<lambda>a. \<not> a_is_read a) d (listArticles None (Some ''unread'') d) \<and>
         lists_exactly (\<lambda>a. a_is_starred a) d (listArticles None (Some ''starred'') d) \<and>
         (u \<noteq> [] \<longrightarrow>
            lists_exactly (\<lambda>a. a_feedUrl a = u \<and> \<not> a_is_read a) d
              (listArticles (Some u) (Some ''unread'') d) \<and>
            lists_exactly (\<lambda>a. a_feedUrl a = u \<and> a_is_starred a) d
              (listArticles (Some u) (Some ''starred'') d)) \<and>
         lists_exactly (\<lambda>a. True) d (listArticles (Some []) None d) \<and>
         (filt \<noteq> ''unread'' \<and> filt \<noteq> ''starred'' \<longrightarrow>
            lists_exactly (\<lambda>a. True) d (listArticles None (Some filt) d))"
proof -
  note sel = lists_exactly_select [OF assms]
  note fl = rowToArticle_stored(2,3) [OF assms]
  have a: "lists_exactly (\<lambda>a. True) d (listArticles None None d)"
    unfolding listArticles_def by (rule sel) (simp add: conditions_def)
  have b: "lists_exactly (\<lambda>a. a_feedUrl a = u) d (listArticles (Some u) None d)" if "u \<noteq> []"
    unfolding listArticles_def
    by (rule sel) (simp add: conditions_def that stored_article_def)
  have c: "lists_exactly (\<lambda>a. \<not> a_is_read a) d (listArticles None (Some ''unread'') d)"
    unfolding listArticles_def by (rule sel) (simp add: conditions_def fl)
  have e: "lists_exactly (\<lambda>a. a_is_starred a) d (listArticles None (Some ''starred'') d)"
    unfolding listArticles_def by (rule sel) (simp add: conditions_def fl)
  have f: "lists_exactly (\<lambda>a. a_feedUrl a = u \<and> \<not> a_is_read a) d
      (listArticles (Some u) (Some ''unread'') d)" if "u \<noteq> []"
    unfolding listArticles_def
    by (rule sel) (simp add: conditions_def that fl, simp add: stored_article_def)
  have g: "lists_exactly (\<lambda>a. a_feedUrl a = u \<and> a_is_starred a) d
      (listArticles (Some u) (Some ''starred'') d)" if "u \<noteq> []"
    unfolding listArticles_def
    by (rule sel) (simp add: conditions_def that fl, simp add: stored_article_def)
  have h: "lists_exactly (\<lambda>a. True) d (listArticles (Some []) None d)"
    unfolding listArticles_def by (rule sel) (simp add: conditions_def)
  have i: "lists_exactly (\<lambda>a. True) d (listArticles None (Some filt) d)"
    if "filt \<noteq> ''unread'' \<and> filt \<noteq> ''starred''"
    unfolding listArticles_def by (rule sel) (simp add: conditions_def that)
  from a b c e f g h i show ?thesis by blast
qed

theorem listArticles_filter_witness:
  "flags_ok ex_db \<and> ''fa'' \<noteq> [] \<and>
   lists_exactly (\<lambda>a. True) ex_db (listArticles None None ex_db) \<and>
   lists_exactly (\<lambda>a. a_feedUrl a = ''fa'') ex_db (listArticles (Some ''fa'') None ex_db) \<and>
   lists_exactly (\<lambda>a. \<not> a_is_read a) ex_db (listArticles None (Some ''unread'') ex_db) \<and>
   lists_exactly (\<lambda>a. a_is_starred a) ex_db (listArticles None (Some ''starred'') ex_db) \<and>
   listArticles (Some ''fa'') None ex_db =
     [\<lparr>a_id = ''fa::2'', a_feedUrl = ''fa'', a_feedName = ''Feed'', a_title = ''Title'',
       a_link = ''l'', a_published = ''p'', a_content = ''c'', a_author = ''w'',
       a_is_read = False, a_is_starred = False\<rparr>,
      \<lparr>a_id = ''fa::1'', a_feedUrl = ''fa'', a_feedName = ''Feed'', a_title = ''Title'',
       a_link = ''l'', a_published = ''p'', a_content = ''c'', a_author = ''w'',
       a_is_read = True, a_is_starred = True\<rparr>] \<and>
   map a_id (listArticles None None ex_db) = [''fb::1'', ''fa::2'', ''fa::1''] \<and>
   map a_id (listArticles None (Some ''unread'') ex_db) = [''fb::1'', ''fa::2''] \<and>
   map a_id (listArticles None (Some ''starred'') ex_db) = [''fa::1'']"
proof -
  have "listArticles (Some ''fa'') None ex_db =
     [\<lparr>a_id = ''fa::2'', a_feedUrl = ''fa'', a_feedName = ''Feed'', a_title = ''Title'',
       a_link = ''l'', a_published = ''p'', a_content = ''c'', a_author = ''w'',
       a_is_read = False, a_is_starred = False\<rparr>,
      \<lparr>a_id = ''fa::1'', a_feedUrl = ''fa'', a_feedName = ''Feed'', a_title = ''Title'',
       a_link = ''l'', a_published = ''p'', a_content = ''c'', a_author = ''w'',
       a_is_read = True, a_is_starred = True\<rparr>]"
    "map a_id (listArticles None None ex_db) = [''fb::1'', ''fa::2'', ''fa::1'']"
    "map a_id (listArticles None (Some ''unread'') ex_db) = [''fb::1'', ''fa::2'']"
    "map a_id (listArticles None (Some ''starred'') ex_db) = [''fa::1'']"
    by (simp_all add: listArticles_def select_articles_def conditions_def ex_db_def ex_row_def
        order_by_ts_desc_def order_key_def less_eq_prod_def rowToArticle_def)
  then show ?thesis
    using listArticles_filter [OF flags_ok_ex_db, of "''fa''" "''all''"] flags_ok_ex_db by simp
qed

subsection \<open>rowToArticle\<close>

text \<open>
  Claim C10.  The object \<open>listArticles\<close> returns for a stored row is \<open>rowToArticle\<close> of the
  row: its ten properties are the row's \<open>id\<close>, \<open>feed_url\<close>, \<open>feed_name\<close>, \<open>title\<close>, \<open>link\<close>,
  \<open>published\<close>, \<open>content\<close>, \<open>author\<close> and the two flags as booleans (false exactly for 0); it
  has no further property, and it does not depend on the row's \<open>published_ts\<close> and
  \<open>fetched_at\<close>, which order the result.
\<close>

theorem rowToArticle_read_model:
  "listArticles feedUrl filt d = map rowToArticle (select_articles (conditions feedUrl filt) d) \<and>
   newest_first (select_articles (conditions feedUrl filt) d) \<and>
   a_id (rowToArticle r) = r_id r \<and>
   a_feedUrl (rowToArticle r) = r_feed_url r \<and>
   a_feedName (rowToArticle r) = r_feed_name r \<and>
   a_title (rowToArticle r) = r_title r \<and>
   a_link (rowToArticle r) = r_link r \<and>
   a_published (rowToArticle r) = r_published r \<and>
   a_content (rowToArticle r) = r_content r \<and>
   a_author (rowToArticle r) = r_author r \<and>
   a_is_read (rowToArticle r) = (r_is_read r \<noteq> 0) \<and>
   a_is_starred (rowToArticle r) = (r_is_starred r \<noteq> 0) \<and>
   article.more (rowToArticle r) = () \<and>
   rowToArticle (r\<lparr>r_published_ts := ts, r_fetched_at := fetched\<rparr>) = rowToArticle r"
  by (simp add: listArticles_def rowToArticle_def select_articles_def newest_first_order_by)

theorem rowToArticle_read_model_witness:
  "listArticles None (Some ''starred'') ex_db = [rowToArticle (ex_row ''fa::1'' ''fa'' 10 100 1 1)] \<and>
   rowToArticle (ex_row ''fa::1'' ''fa'' 10 100 1 1) =
     \<lparr>a_id = ''fa::1'', a_feedUrl = ''fa'', a_feedName = ''Feed'', a_title = ''Title'',
      a_link = ''l'', a_published = ''p'', a_content = ''c'', a_author = ''w'',
      a_is_read = True, a_is_starred = True\<rparr> \<and>
   rowToArticle (ex_row ''fa::1'' ''fa'' 77 88 1 1) = rowToArticle (ex_row ''fa::1'' ''fa'' 10 100 1 1)"
proof -
  have "select_articles (conditions None (Some ''starred'')) ex_db = [ex_row ''fa::1'' ''fa'' 10 100 1 1]"
    by (simp add: select_articles_def conditions_def ex_db_def ex_row_def
        order_by_ts_desc_def order_key_def less_eq_prod_def)
  moreover have "rowToArticle (ex_row ''fa::1'' ''fa'' 10 100 1 1) =
     \<lparr>a_id = ''fa::1'', a_feedUrl = ''fa'', a_feedName = ''Feed'', a_title = ''Title'',
      a_link = ''l'', a_published = ''p'', a_content = ''c'', a_author = ''w'',
      a_is_read = True, a_is_starred = True\<rparr>"
    by (simp add: rowToArticle_def ex_row_def)
  moreover have "ex_row ''fa::1'' ''fa'' 77 88 1 1 =
      (ex_row ''fa::1'' ''fa'' 10 100 1 1)\<lparr>r_published_ts := 77, r_fetched_at := 88\<rparr>"
    by (simp add: ex_row_def)
  ultimately show ?thesis
    using rowToArticle_read_model [where feedUrl = None and filt = "Some ''starred''" and d = ex_db
        and r = "ex_row ''fa::1'' ''fa'' 10 100 1 1" and ts = 77 and fetched = 88]
    by simp
qed

subsection \<open>parseRSS\<close>

lemma and_then_Inr: "and_then (Inr v) f = f v"
  by (simp add: and_then_def)

lemma text_of_OptDot: "text_of OptDot x = Inr (map_option textContent x)"
  by (cases x) (simp_all add: text_of_def member_def)

lemma href_of_OptDot: "href_of OptDot x = Inr (Option.bind x (getAttribute ''href''))"
  by (cases x) (simp_all add: href_of_def member_def)

lemma or_else_Inr: "or_else (Inr a) (Inr b) = Inr (pick a b)"
  by (simp add: or_else_def pick_def and_then_def split: option.splits)

lemma pick_None: "pick None b = b"
  by (simp add: pick_def)

text \<open>The selector strings of \<^verbatim>\<open>parseRSS\<close> are selectors.\<close>

lemmas selector_defs = parse_selector_def compound_def ident_def attr_value_def spaces_def
  name_start_def name_char_def hex_digit_def line_break_def backslash_def quote_def dc_date_def

lemma selectors_of_parseRSS:
  "parse_selector ''feed'' = Some (Tag ''feed'')"
  "parse_selector ''feed > title'' = Some (ChildOf ''feed'' ''title'')"
  "parse_selector ''entry'' = Some (Tag ''entry'')"
  "parse_selector ''title'' = Some (Tag ''title'')"
  "parse_selector ''link[rel='alternate']'' = Some (TagAttr ''link'' ''rel'' ''alternate'')"
  "parse_selector ''link'' = Some (Tag ''link'')"
  "parse_selector ''published'' = Some (Tag ''published'')"
  "parse_selector ''updated'' = Some (Tag ''updated'')"
  "parse_selector ''content'' = Some (Tag ''content'')"
  "parse_selector ''summary'' = Some (Tag ''summary'')"
  "parse_selector ''author > name'' = Some (ChildOf ''author'' ''name'')"
  "parse_selector ''channel'' = Some (Tag ''channel'')"
  "parse_selector ''item'' = Some (Tag ''item'')"
  "parse_selector ''pubDate'' = Some (Tag ''pubDate'')"
  "parse_selector dc_date = Some (Tag ''dc:date'')"
  "parse_selector ''description'' = Some (Tag ''description'')"
  "parse_selector ''author'' = Some (Tag ''author'')"
  by (simp_all add: selector_defs)

lemma querySelector_parsed:
  assumes "parse_selector s = Some sel"
  shows "querySelector s e = Inr (first (select sel (el_elements e)))"
    and "querySelectorAll s e = Inr (select sel (el_elements e))"
    and "doc_querySelector s doc = Inr (first (select sel (doc_elements doc)))"
    and "doc_querySelectorAll s doc = Inr (select sel (doc_elements doc))"
  using assms
  by (simp_all add: querySelector_def querySelectorAll_def doc_querySelector_def
      doc_querySelectorAll_def and_then_def)

lemmas query_simps =
  selectors_of_parseRSS [THEN querySelector_parsed(1)]
  selectors_of_parseRSS [THEN querySelector_parsed(2)]
  selectors_of_parseRSS [THEN querySelector_parsed(3)]
  selectors_of_parseRSS [THEN querySelector_parsed(4)]

text \<open>Neither kind of entry throws; its five properties.\<close>

lemma atom_entry_value:
  "atom_entry e =
     Inr \<lparr>i_title = pick (map_option textContent (first (select (Tag ''title'') (el_elements e)))) ''Untitled'',
          i_link = pick (Option.bind (first (select (TagAttr ''link'' ''rel'' ''alternate'') (el_elements e)))
                           (getAttribute ''href''))
                     (pick (Option.bind (first (select (Tag ''link'') (el_elements e)))
                              (getAttribute ''href'')) []),
          i_published = pick (map_option textContent (first (select (Tag ''published'') (el_elements e))))
                          (pick (map_option textContent (first (select (Tag ''updated'') (el_elements e)))) []),
          i_content = pick (map_option textContent (first (select (Tag ''content'') (el_elements e))))
                        (pick (map_option textContent (first (select (Tag ''summary'') (el_elements e)))) []),
          i_author = pick (map_option textContent (first (select (ChildOf ''author'' ''name'') (el_elements e)))) []\<rparr>"
  by (simp add: atom_entry_def query_simps and_then_Inr text_of_OptDot href_of_OptDot or_else_Inr)

lemma rss_item_value:
  "rss_item e =
     Inr \<lparr>i_title = pick (map_option textContent (first (select (Tag ''title'') (el_elements e)))) ''Untitled'',
          i_link = pick (map_option textContent (first (select (Tag ''link'') (el_elements e)))) [],
          i_published = pick (map_option textContent (first (select (Tag ''pubDate'') (el_elements e))))
                          (pick (map_option textContent (first (select (Tag ''dc:date'') (el_elements e)))) []),
          i_content = pick (map_option textContent (first (getElementsByTagName ''content:encoded'' e)))
                        (pick (map_option textContent (first (select (Tag ''description'') (el_elements e)))) []),
          i_author = pick (map_option textContent (first (getElementsByTagName ''dc:creator'' e)))
                       (pick (map_option textContent (first (select (Tag ''author'') (el_elements e)))) [])\<rparr>"
  by (simp add: rss_item_def query_simps and_then_Inr text_of_OptDot or_else_Inr)

lemma for_each_total:
  assumes "\<And>x. \<exists>y. f x = Inr y"
  shows "\<exists>ys. for_each f xs = Inr ys \<and> map f xs = map Inr ys"
proof (induction xs)
  case Nil
  then show ?case by simp
next
  case (Cons x xs)
  then obtain ys where ys: "for_each f xs = Inr ys" "map f xs = map Inr ys" by blast
  from assms obtain y where y: "f x = Inr y" by blast
  have "for_each f (x # xs) = Inr (y # ys)" by (simp add: y ys(1) and_then_Inr)
  with y ys(2) show ?case by simp
qed

text \<open>The body does not throw on any document.\<close>

lemma parse_document_total:
  "\<exists>p es. parse_document doc = Inr p \<and>
     (if doc_querySelector ''feed'' doc = Inr None
      then doc_querySelectorAll ''item'' doc = Inr es \<and> map rss_item es = map Inr (p_items p)
      else doc_querySelectorAll ''entry'' doc = Inr es \<and> map atom_entry es = map Inr (p_items p))"
proof (cases "first (select (Tag ''feed'') (doc_elements doc)) = None")
  case True
  obtain ys where ys: "for_each rss_item (select (Tag ''item'') (doc_elements doc)) = Inr ys"
      "map rss_item (select (Tag ''item'') (doc_elements doc)) = map Inr ys"
    using for_each_total [of rss_item] rss_item_value by blast
  obtain t where t: "member OptDot (querySelector ''title'')
      (first (select (Tag ''channel'') (doc_elements doc))) = Inr t"
    by (cases "first (select (Tag ''channel'') (doc_elements doc))")
      (simp_all add: member_def query_simps)
  show ?thesis
    using True ys
    by (simp add: parse_document_def query_simps and_then_Inr t text_of_OptDot or_else_Inr)
next
  case False
  obtain ys where ys: "for_each atom_entry (select (Tag ''entry'') (doc_elements doc)) = Inr ys"
      "map atom_entry (select (Tag ''entry'') (doc_elements doc)) = map Inr ys"
    using for_each_total [of atom_entry] atom_entry_value by blast
  from False obtain feed where "first (select (Tag ''feed'') (doc_elements doc)) = Some feed"
    by blast
  with ys show ?thesis
    by (simp add: parse_document_def query_simps and_then_Inr text_of_OptDot or_else_Inr)
qed

text \<open>The two example documents.\<close>

lemmas dom_defs = select_def doc_elements_def el_elements_def first_def
  getElementsByTagName_def has_local_def is_element_def tagName_def getAttribute_def pick_def

lemma parse_ex_rss:
  "parse_document ex_rss_doc =
     Inr \<lparr>p_feedTitle = ''News'',
          p_items = [\<lparr>i_title = ''Untitled'', i_link = ''http://n/1'',
                      i_published = ''Mon, 01 Jan 2024'', i_content = [], i_author = []\<rparr>]\<rparr>"
  by (simp add: parse_document_def query_simps and_then_Inr text_of_OptDot or_else_Inr
        member_def rss_item_value ex_rss_doc_def dom_defs)

lemma parse_ex_atom:
  "parse_document ex_atom_doc =
     Inr \<lparr>p_feedTitle = ''Blog'',
          p_items = [\<lparr>i_title = ''Untitled'', i_link = ''http://b/1'',
                      i_published = ''2024-01-01'', i_content = [], i_author = []\<rparr>]\<rparr>"
  by (simp add: parse_document_def query_simps and_then_Inr text_of_OptDot or_else_Inr
        member_def atom_entry_value ex_atom_doc_def ex_entry_def dom_defs)

lemma first_None: "first xs = None \<longleftrightarrow> xs = []"
  by (simp add: first_def split: list.splits)

lemma select_first_None:
  "first (select sel (el_elements e)) = None \<longleftrightarrow>
     (\<forall>pe \<in> set (descendants e). \<not> matches sel (Some (fst pe)) (snd pe))"
  by (auto simp: select_def el_elements_def first_None filter_empty_conv)

lemma no_link_no_alternate:
  "first (select (Tag t) (el_elements e)) = None \<Longrightarrow>
     first (select (TagAttr t a v) (el_elements e)) = None"
  by (simp add: select_first_None)

text \<open>
  Claim C9, as it is stated, fails: not every other missing field degrades to the empty
  string.  The entry of \<open>ex_atom_doc\<close> has no title element, and its parsed title is
  \<^verbatim>\<open>"Untitled"\<close>, as the title of an RSS item without one.
\<close>

theorem parseRSS_atom_title_counterexample:
  "doc_querySelector ''feed'' ex_atom_doc = Inr (Some ex_atom_doc) \<and>
   doc_querySelectorAll ''entry'' ex_atom_doc = Inr [ex_entry] \<and>
   querySelector ''title'' ex_entry = Inr None \<and>
   parseRSS (\<lambda>xmlText. ex_atom_doc) [] =
     Inr \<lparr>p_feedTitle = ''Blog'',
          p_items = [\<lparr>i_title = ''Untitled'', i_link = ''http://b/1'',
                      i_published = ''2024-01-01'', i_content = [], i_author = []\<rparr>]\<rparr> \<and>
   ''Untitled'' \<noteq> []"
proof -
  have "doc_querySelector ''feed'' ex_atom_doc = Inr (Some ex_atom_doc)"
    "doc_querySelectorAll ''entry'' ex_atom_doc = Inr [ex_entry]"
    "querySelector ''title'' ex_entry = Inr None"
    by (simp_all add: query_simps ex_atom_doc_def ex_entry_def dom_defs)
  then show ?thesis by (simp add: parseRSS_def parse_ex_atom)
qed

text \<open>
  Claim C9, amended.  \<open>parseRSS\<close> does not throw: for every document that the browser builds
  from the text it returns a value, and so do the two functions that build an entry, for
  every element.  (Each string it passes to \<^verbatim>\<open>querySelector\<close> and \<^verbatim>\<open>querySelectorAll\<close> is a
  selector, and each read of a node that may be missing is made with \<^verbatim>\<open>?.\<close>.)  Its items
  are the entries of the \<open>entry\<close> elements of a document with a \<open>feed\<close> element, and of the
  \<open>item\<close> elements of any other, in document order.  An RSS item and an Atom entry with no
  title element get the title \<^verbatim>\<open>"Untitled"\<close>.  An Atom entry with no \<open>published\<close> element
  and an \<open>updated\<close> element gets the text of the \<open>updated\<close> element as \<open>published\<close>.  Every
  other field whose source elements are all missing is the empty string: \<open>link\<close>,
  \<open>published\<close>, \<open>content\<close> and \<open>author\<close>, in both formats.
\<close>

theorem parseRSS_defaults:
  "(\<exists>p. parseRSS parseFromString xmlText = Inr p) \<and>
   (\<exists>p es. parse_document doc = Inr p \<and>
      (if doc_querySelector ''feed'' doc = Inr None
       then doc_querySelectorAll ''item'' doc = Inr es \<and> map rss_item es = map Inr (p_items p)
       else doc_querySelectorAll ''entry'' doc = Inr es \<and> map atom_entry es = map Inr (p_items p))) \<and>
   (\<exists>i. rss_item e = Inr i) \<and>
   (\<exists>i. atom_entry e = Inr i) \<and>
   (querySelector ''title'' e = Inr None \<longrightarrow>
      (\<exists>i. rss_item e = Inr i \<and> i_title i = ''Untitled'') \<and>
      (\<exists>i. atom_entry e = Inr i \<and> i_title i = ''Untitled'')) \<and>
   (querySelector ''published'' e' = Inr None \<and> querySelector ''updated'' e' = Inr (Some u) \<longrightarrow>
      (\<exists>i. atom_entry e' = Inr i \<and> i_published i = textContent u)) \<and>
   (querySelector ''published'' e = Inr None \<and> querySelector ''updated'' e = Inr None \<longrightarrow>
      (\<exists>i. atom_entry e = Inr i \<and> i_published i = [])) \<and>
   (querySelector ''link'' e = Inr None \<longrightarrow>
      (\<exists>i. atom_entry e = Inr i \<and> i_link i = []) \<and>
      (\<exists>i. rss_item e = Inr i \<and> i_link i = [])) \<and>
   (querySelector ''content'' e = Inr None \<and> querySelector ''summary'' e = Inr None \<longrightarrow>
      (\<exists>i. atom_entry e = Inr i \<and> i_content i = [])) \<and>
   (querySelector ''author > name'' e = Inr None \<longrightarrow>
      (\<exists>i. atom_entry e = Inr i \<and> i_author i = [])) \<and>
   (querySelector ''pubDate'' e = Inr None \<and> querySelector dc_date e = Inr None \<longrightarrow>
      (\<exists>i. rss_item e = Inr i \<and> i_published i = [])) \<and>
   (getElementsByTagName ''content:encoded'' e = [] \<and>
    querySelector ''description'' e = Inr None \<longrightarrow>
      (\<exists>i. rss_item e = Inr i \<and> i_content i = [])) \<and>
   (getElementsByTagName ''dc:creator'' e = [] \<and>
    querySelector ''author'' e = Inr None \<longrightarrow>
      (\<exists>i. rss_item e = Inr i \<and> i_author i = []))"
proof -
  have total: "\<exists>p. parseRSS parseFromString xmlText = Inr p"
    unfolding parseRSS_def using parse_document_total [of "parseFromString xmlText"] by blast
  have link: "querySelector ''link'' e = Inr None \<longrightarrow>
      (\<exists>i. atom_entry e = Inr i \<and> i_link i = []) \<and>
      (\<exists>i. rss_item e = Inr i \<and> i_link i = [])"
    using no_link_no_alternate [of "''link''" e "''rel''" "''alternate''"]
    by (simp add: atom_entry_value rss_item_value query_simps pick_None)
  have upd: "querySelector ''published'' e' = Inr None \<and> querySelector ''updated'' e' = Inr (Some u) \<longrightarrow>
      (\<exists>i. atom_entry e' = Inr i \<and> i_published i = textContent u)"
    by (auto simp: atom_entry_value query_simps pick_def)
  have rest:
    "querySelector ''title'' e = Inr None \<longrightarrow>
      (\<exists>i. rss_item e = Inr i \<and> i_title i = ''Untitled'') \<and>
      (\<exists>i. atom_entry e = Inr i \<and> i_title i = ''Untitled'')"
    "querySelector ''published'' e = Inr None \<and> querySelector ''updated'' e = Inr None \<longrightarrow>
      (\<exists>i. atom_entry e = Inr i \<and> i_published i = [])"
    "querySelector ''content'' e = Inr None \<and> querySelector ''summary'' e = Inr None \<longrightarrow>
      (\<exists>i. atom_entry e = Inr i \<and> i_content i = [])"
    "querySelector ''author > name'' e = Inr None \<longrightarrow>
      (\<exists>i. atom_entry e = Inr i \<and> i_author i = [])"
    "querySelector ''pubDate'' e = Inr None \<and> querySelector dc_date e = Inr None \<longrightarrow>
      (\<exists>i. rss_item e = Inr i \<and> i_published i = [])"
    "getElementsByTagName ''content:encoded'' e = [] \<and>
     querySelector ''description'' e = Inr None \<longrightarrow>
      (\<exists>i. rss_item e = Inr i \<and> i_content i = [])"
    "getElementsByTagName ''dc:creator'' e = [] \<and>
     querySelector ''author'' e = Inr None \<longrightarrow>
      (\<exists>i. rss_item e = Inr i \<and> i_author i = [])"
    by (simp_all add: atom_entry_value rss_item_value query_simps pick_None first_def)
  have vals: "\<exists>i. rss_item e = Inr i" "\<exists>i. atom_entry e = Inr i"
    by (simp_all add: atom_entry_value rss_item_value)
  from total parse_document_total [of doc] vals link upd rest show ?thesis by blast
qed

theorem parseRSS_defaults_witness:
  "querySelector ''title'' ex_empty = Inr None \<and>
   querySelector ''link'' ex_empty = Inr None \<and>
   querySelector ''published'' ex_empty = Inr None \<and>
   querySelector ''updated'' ex_empty = Inr None \<and>
   querySelector ''content'' ex_empty = Inr None \<and>
   querySelector ''summary'' ex_empty = Inr None \<and>
   querySelector ''author > name'' ex_empty = Inr None \<and>
   querySelector ''pubDate'' ex_empty = Inr None \<and>
   querySelector dc_date ex_empty = Inr None \<and>
   querySelector ''description'' ex_empty = Inr None \<and>
   querySelector ''author'' ex_empty = Inr None \<and>
   getElementsByTagName ''content:encoded'' ex_empty = [] \<and>
   getElementsByTagName ''dc:creator'' ex_empty = [] \<and>
   querySelector ''published'' ex_entry = Inr None \<and>
   querySelector ''updated'' ex_entry = Inr (Some ex_updated) \<and>
   rss_item ex_empty =
     Inr \<lparr>i_title = ''Untitled'', i_link = [], i_published = [], i_content = [], i_author = []\<rparr> \<and>
   atom_entry ex_empty =
     Inr \<lparr>i_title = ''Untitled'', i_link = [], i_published = [], i_content = [], i_author = []\<rparr> \<and>
   (\<exists>i. atom_entry ex_entry = Inr i \<and> i_published i = ''2024-01-01'') \<and>
   parseRSS (\<lambda>xmlText. ex_rss_doc) [] =
     Inr \<lparr>p_feedTitle = ''News'',
          p_items = [\<lparr>i_title = ''Untitled'', i_link = ''http://n/1'',
                      i_published = ''Mon, 01 Jan 2024'', i_content = [], i_author = []\<rparr>]\<rparr>"
proof -
  have h: "querySelector ''title'' ex_empty = Inr None"
    "querySelector ''link'' ex_empty = Inr None"
    "querySelector ''published'' ex_empty = Inr None"
    "querySelector ''updated'' ex_empty = Inr None"
    "querySelector ''content'' ex_empty = Inr None"
    "querySelector ''summary'' ex_empty = Inr None"
    "querySelector ''author > name'' ex_empty = Inr None"
    "querySelector ''pubDate'' ex_empty = Inr None"
    "querySelector dc_date ex_empty = Inr None"
    "querySelector ''description'' ex_empty = Inr None"
    "querySelector ''author'' ex_empty = Inr None"
    "getElementsByTagName ''content:encoded'' ex_empty = []"
    "getElementsByTagName ''dc:creator'' ex_empty = []"
    by (simp_all add: query_simps ex_empty_def select_def el_elements_def first_def
        getElementsByTagName_def)
  have g: "querySelector ''published'' ex_entry = Inr None"
    "querySelector ''updated'' ex_entry = Inr (Some ex_updated)"
    "textContent ex_updated = ''2024-01-01''"
    by (simp_all add: query_simps ex_entry_def ex_updated_def select_def el_elements_def
        first_def has_local_def is_element_def)
  from parseRSS_defaults [where e = ex_empty and e' = ex_entry and u = ex_updated
      and parseFromString = "\<lambda>xmlText. ex_rss_doc" and xmlText = "[]" and doc = ex_rss_doc] h g
  have R: "\<exists>i. rss_item ex_empty = Inr i \<and> i_title i = ''Untitled''"
      "\<exists>i. rss_item ex_empty = Inr i \<and> i_link i = []"
      "\<exists>i. rss_item ex_empty = Inr i \<and> i_published i = []"
      "\<exists>i. rss_item ex_empty = Inr i \<and> i_content i = []"
      "\<exists>i. rss_item ex_empty = Inr i \<and> i_author i = []"
    and A: "\<exists>i. atom_entry ex_empty = Inr i \<and> i_title i = ''Untitled''"
      "\<exists>i. atom_entry ex_empty = Inr i \<and> i_link i = []"
      "\<exists>i. atom_entry ex_empty = Inr i \<and> i_published i = []"
      "\<exists>i. atom_entry ex_empty = Inr i \<and> i_content i = []"
      "\<exists>i. atom_entry ex_empty = Inr i \<and> i_author i = []"
    and p: "\<exists>i. atom_entry ex_entry = Inr i \<and> i_published i = ''2024-01-01''"
    by simp_all
  from R obtain r where
    r: "rss_item ex_empty = Inr r" "i_title r = ''Untitled''" "i_link r = []"
       "i_published r = []" "i_content r = []" "i_author r = []"
    by auto
  from A obtain a where
    a: "atom_entry ex_empty = Inr a" "i_title a = ''Untitled''" "i_link a = []"
       "i_published a = []" "i_content a = []" "i_author a = []"
    by auto
  from r a have "rss_item ex_empty =
     Inr \<lparr>i_title = ''Untitled'', i_link = [], i_published = [], i_content = [], i_author = []\<rparr>"
    "atom_entry ex_empty =
     Inr \<lparr>i_title = ''Untitled'', i_link = [], i_published = [], i_content = [], i_author = []\<rparr>"
    by (simp_all add: item.equality)
  with h g(1,2) p parse_ex_rss show ?thesis by (simp add: parseRSS_def)
qed

subsection \<open>Pruning\<close>

lemma filter_mem_take:
  assumes "distinct xs"
  shows "filter (\<lambda>x. x \<in> set (take n xs)) xs = take n xs"
proof -
  have d: "set (take n xs) \<inter> set (drop n xs) = {}"
    using assms by (metis append_take_drop_id distinct_append)
  have "filter (\<lambda>x. x \<in> set (take n xs)) xs =
        filter (\<lambda>x. x \<in> set (take n xs)) (take n xs) @ filter (\<lambda>x. x \<in> set (take n xs)) (drop n xs)"
    by (metis append_take_drop_id filter_append)
  moreover have "filter (\<lambda>x. x \<in> set (take n xs)) (take n xs) = take n xs" by simp
  moreover have "filter (\<lambda>x. x \<in> set (take n xs)) (drop n xs) = []"
    using d by (auto simp: filter_empty_conv)
  ultimately show ?thesis by simp
qed

lemma distinct_rows: "distinct (map r_id rows) \<Longrightarrow> distinct rows"
  by (simp add: distinct_map)

lemma id_in_sub:
  assumes "distinct (map r_id rows)" and "set K \<subseteq> set rows" and "r \<in> set rows"
  shows "r_id r \<in> set (map r_id K) \<longleftrightarrow> r \<in> set K"
proof
  assume "r_id r \<in> set (map r_id K)"
  then obtain s where s: "s \<in> set K" "r_id s = r_id r" by auto
  with assms have "s = r" by (metis distinct_map inj_onD subsetD)
  with s show "r \<in> set K" by simp
qed auto

lemma newest_sub: "set (take n (order_by_ts_desc (filter (prunable u) rows))) \<subseteq> set rows"
  by (metis (no_types, lifting) filter_is_subset in_set_takeD set_order_by subset_iff)

lemma prune_filter:
  assumes "distinct (map r_id (articles d))"
  shows "articles (delete_beyond_limit u n d) =
         filter (\<lambda>r. prunable u r \<longrightarrow> r \<in> set (take n (order_by_ts_desc (filter (prunable u) (articles d)))))
           (articles d)"
  unfolding delete_beyond_limit_def newest_ids_def
  using id_in_sub [OF assms newest_sub]
  by (auto intro!: filter_cong)

lemma prune_kept_mset:
  assumes "distinct (map r_id (articles d))"
  shows "mset (filter (prunable u) (articles (delete_beyond_limit u n d))) =
         mset (take n (order_by_ts_desc (filter (prunable u) (articles d))))"
proof -
  let ?F = "filter (prunable u) (articles d)"
  let ?S = "order_by_ts_desc ?F"
  have dF: "distinct ?F" using assms by (simp add: distinct_rows)
  then have dS: "distinct ?S" by (metis mset_order_by mset_eq_imp_distinct_iff)
  have "filter (prunable u) (articles (delete_beyond_limit u n d)) =
        filter (\<lambda>r. r \<in> set (take n ?S)) ?F"
    unfolding prune_filter [OF assms] by (auto intro!: filter_cong)
  moreover have "mset (filter (\<lambda>r. r \<in> set (take n ?S)) ?F) =
        mset (filter (\<lambda>r. r \<in> set (take n ?S)) ?S)"
    by (metis mset_filter mset_order_by)
  ultimately show ?thesis using filter_mem_take [OF dS, of n] by simp
qed

lemma prune_count:
  assumes "distinct (map r_id (articles d))"
  shows "length (filter (prunable u) (articles (delete_beyond_limit u n d))) =
         min n (length (filter (prunable u) (articles d)))"
proof -
  have "length (filter (prunable u) (articles (delete_beyond_limit u n d))) =
        length (take n (order_by_ts_desc (filter (prunable u) (articles d))))"
    using prune_kept_mset [OF assms] by (rule mset_eq_length)
  then show ?thesis by (simp add: length_order_by min.commute)
qed

lemma prune_keeps_others:
  "r \<in> set (articles d) \<Longrightarrow> \<not> prunable u r \<Longrightarrow> r \<in> set (articles (delete_beyond_limit u n d))"
  by (simp add: delete_beyond_limit_def)

lemma prune_subset: "set (articles (delete_beyond_limit u n d)) \<subseteq> set (articles d)"
  by (auto simp: delete_beyond_limit_def)

lemma prune_frame:
  "filter (\<lambda>r. \<not> prunable u r) (articles (delete_beyond_limit u n d)) =
   filter (\<lambda>r. \<not> prunable u r) (articles d)"
  by (auto simp: delete_beyond_limit_def intro!: filter_cong)

lemma take_drop_sorted:
  assumes "r \<in> set (take n (order_by_ts_desc rows))" and "s \<in> set (drop n (order_by_ts_desc rows))"
  shows "order_key r \<le> order_key s"
proof -
  let ?S = "order_by_ts_desc rows"
  have "sorted_wrt (\<lambda>a b. order_key a \<le> order_key b) (take n ?S @ drop n ?S)"
    using sorted_order_by [of rows] by (simp add: sorted_map)
  then show ?thesis using assms unfolding sorted_wrt_append by blast
qed

lemma prune_newest:
  assumes "distinct (map r_id (articles d))"
    and "kept \<in> set (articles (delete_beyond_limit u n d))" and "prunable u kept"
    and "gone \<in> set (articles d)" and "gone \<notin> set (articles (delete_beyond_limit u n d))"
  shows "order_key kept \<le> order_key gone"
proof -
  let ?S = "order_by_ts_desc (filter (prunable u) (articles d))"
  from assms(2,3) have k: "kept \<in> set (take n ?S)"
    unfolding prune_filter [OF assms(1)] by simp
  from assms(4,5) have "prunable u gone" "gone \<notin> set (take n ?S)"
    unfolding prune_filter [OF assms(1)] by auto
  moreover from this assms(4) have "gone \<in> set ?S" by (simp add: set_order_by)
  ultimately have "gone \<in> set (drop n ?S)"
    by (metis Un_iff append_take_drop_id set_append)
  with k show ?thesis by (rule take_drop_sorted)
qed

subsection \<open>The loop of upsertArticles\<close>

lemma do_update_set_frame [simp]:
  "r_id (do_update_set new old) = r_id old"
  "r_feed_url (do_update_set new old) = r_feed_url old"
  "r_is_read (do_update_set new old) = r_is_read old"
  "r_is_starred (do_update_set new old) = r_is_starred old"
  by (simp_all add: do_update_set_def)

lemma do_update_set_twice [simp]:
  "do_update_set new (do_update_set new' old) = do_update_set new old"
  by (simp add: do_update_set_def)

lemma item_row_frame [simp]:
  "r_id (item_row g now u n it) = article_id u it"
  "r_feed_url (item_row g now u n it) = u"
  by (simp_all add: item_row_def)

lemma last_entry_Cons:
  "last_entry u (it # its) i =
     (case last_entry u its i of
        Some x \<Rightarrow> Some x
      | None \<Rightarrow> if article_id u it = i then Some it else None)"
  by (auto simp: last_entry_def split: list.splits)

lemma last_entry_Nil [simp]: "last_entry u [] i = None"
  by (simp add: last_entry_def)

lemma last_entry_None: "last_entry u its i = None \<longleftrightarrow> i \<notin> article_id u ` set its"
proof -
  have "last_entry u its i = None \<longleftrightarrow> filter (\<lambda>it. article_id u it = i) its = []"
    by (simp add: last_entry_def split: list.splits)
  then show ?thesis by (auto simp: filter_empty_conv)
qed

lemma last_entry_Some:
  "last_entry u its i = Some it \<Longrightarrow> it \<in> set its \<and> article_id u it = i"
proof -
  assume a: "last_entry u its i = Some it"
  then have ne: "filter (\<lambda>x. article_id u x = i) its \<noteq> []" and
    l: "it = last (filter (\<lambda>x. article_id u x = i) its)"
    by (auto simp: last_entry_def split: list.splits)
  from last_in_set [OF ne] l show ?thesis by auto
qed

lemma refreshed_frame [simp]:
  "r_id (refreshed g now u n its r) = r_id r"
  "r_feed_url (refreshed g now u n its r) = r_feed_url r"
  "r_is_read (refreshed g now u n its r) = r_is_read r"
  "r_is_starred (refreshed g now u n its r) = r_is_starred r"
  by (simp_all add: refreshed_def split: option.splits)

lemma refreshed_Nil [simp]: "refreshed g now u n [] r = r"
  by (simp add: refreshed_def)

lemma refreshed_Nil_fun: "refreshed g now u n [] = (\<lambda>r. r)"
  by (rule ext) simp

lemma r_id_if_update [simp]: "r_id (if c then do_update_set new old else old) = r_id old"
  by simp

lemma refreshed_Cons:
  "refreshed g now u n (it # its) r =
     refreshed g now u n its
       (if r_id r = article_id u it then do_update_set (item_row g now u n it) r else r)"
  by (auto simp: refreshed_def last_entry_Cons split: option.splits)

lemma refreshed_other:
  "r_id r \<notin> article_id u ` set its \<Longrightarrow> refreshed g now u n its r = r"
  by (simp add: refreshed_def last_entry_None [THEN iffD2])

text \<open>The state after a loop that ran to its end.\<close>

lemma upsert_items_ok:
  assumes "upsert_items g now u n its d = (None, d1)"
  shows "feeds d1 = feeds d \<and> meta d1 = meta d \<and>
         (\<exists>new. articles d1 = map (refreshed g now u n its) (articles d) @ new \<and>
                distinct (map r_id new) \<and>
                (\<forall>x \<in> set new. r_feed_url x = u \<and> u \<in> feed_urls d \<and> r_id x \<notin> article_ids d \<and>
                    r_id x \<in> article_id u ` set its \<and>
                    r_is_read x = default_is_read \<and> r_is_starred x = default_is_starred \<and>
                    r_fetched_at x = now))"
  using assms
proof (induction its arbitrary: d)
  case Nil
  then show ?case by simp
next
  case (Cons it its)
  let ?row = "item_row g now u n it"
  show ?case
  proof (cases "r_id ?row \<in> article_ids d")
    case True
    let ?dm = "d\<lparr>articles := map (\<lambda>old. if r_id old = r_id ?row then do_update_set ?row old else old) (articles d)\<rparr>"
    from True Cons.prems have run: "upsert_items g now u n its ?dm = (None, d1)"
      by (simp add: upsert_article_def)
    have ids: "article_ids ?dm = article_ids d"
      by (simp add: article_ids_def o_def)
    have fu: "feed_urls ?dm = feed_urls d" by (simp add: feed_urls_def)
    from Cons.IH [OF run] obtain new where
      n: "feeds d1 = feeds d" "meta d1 = meta d"
        "articles d1 = map (refreshed g now u n its) (articles ?dm) @ new"
        "distinct (map r_id new)"
        "\<forall>x \<in> set new. r_feed_url x = u \<and> u \<in> feed_urls d \<and> r_id x \<notin> article_ids d \<and>
                    r_id x \<in> article_id u ` set its \<and>
                    r_is_read x = default_is_read \<and> r_is_starred x = default_is_starred \<and>
                    r_fetched_at x = now"
      unfolding ids fu by auto
    have "map (refreshed g now u n its) (articles ?dm) = map (refreshed g now u n (it # its)) (articles d)"
      by (simp add: refreshed_Cons)
    with n show ?thesis by auto
  next
    case False
    show ?thesis
    proof (cases "u \<in> feed_urls d")
      case no: False
      with False Cons.prems show ?thesis by (simp add: upsert_article_def)
    next
      case yes: True
      let ?r0 = "?row\<lparr>r_is_read := default_is_read, r_is_starred := default_is_starred\<rparr>"
      let ?dm = "d\<lparr>articles := articles d @ [?r0]\<rparr>"
      from False yes Cons.prems have run: "upsert_items g now u n its ?dm = (None, d1)"
        by (simp add: upsert_article_def)
      have ids: "article_ids ?dm = insert (article_id u it) (article_ids d)"
        by (auto simp: article_ids_def)
      have fu: "feed_urls ?dm = feed_urls d" by (simp add: feed_urls_def)
      from Cons.IH [OF run] obtain new where
        n: "feeds d1 = feeds d" "meta d1 = meta d"
          "articles d1 = map (refreshed g now u n its) (articles ?dm) @ new"
          "distinct (map r_id new)"
          "\<forall>x \<in> set new. r_feed_url x = u \<and> u \<in> feed_urls d \<and> r_id x \<notin> insert (article_id u it) (article_ids d) \<and>
                    r_id x \<in> article_id u ` set its \<and>
                    r_is_read x = default_is_read \<and> r_is_starred x = default_is_starred \<and>
                    r_fetched_at x = now"
        unfolding ids fu by auto
      have old: "map (refreshed g now u n its) (articles d) = map (refreshed g now u n (it # its)) (articles d)"
        using False by (force simp: refreshed_Cons article_ids_def)
      let ?new = "refreshed g now u n its ?r0 # new"
      have fa: "r_fetched_at (refreshed g now u n its ?r0) = now"
        by (simp add: refreshed_def item_row_def do_update_set_def split: option.splits)
      have "articles d1 = map (refreshed g now u n (it # its)) (articles d) @ ?new"
        using n(3) old by simp
      moreover have "distinct (map r_id ?new)" using n(4,5) by auto
      moreover have "\<forall>x \<in> set ?new. r_feed_url x = u \<and> u \<in> feed_urls d \<and> r_id x \<notin> article_ids d \<and>
                    r_id x \<in> article_id u ` set (it # its) \<and>
                    r_is_read x = default_is_read \<and> r_is_starred x = default_is_starred \<and>
                    r_fetched_at x = now"
        using n(5) False yes fa by auto
      ultimately show ?thesis using n(1,2) by blast
    qed
  qed
qed

text \<open>A loop that failed has only updated rows, and the feed is not live.\<close>

lemma upsert_items_failed:
  assumes "upsert_items g now u n its d = (Some e, d1)"
  shows "u \<notin> feed_urls d \<and> feeds d1 = feeds d \<and> meta d1 = meta d \<and>
         (\<exists>k. articles d1 = map (refreshed g now u n (take k its)) (articles d))"
  using assms
proof (induction its arbitrary: d)
  case Nil
  then show ?case by simp
next
  case (Cons it its)
  let ?row = "item_row g now u n it"
  show ?case
  proof (cases "upsert_article ?row d")
    case (Inl e')
    then have "u \<notin> feed_urls d" by (auto simp: upsert_article_def split: if_splits)
    moreover from Inl Cons.prems have "d1 = d" by simp
    moreover have "articles d = map (refreshed g now u n (take 0 (it # its))) (articles d)"
      by (simp add: refreshed_Nil_fun)
    ultimately show ?thesis by blast
  next
    case (Inr dm)
    with Cons.prems have run: "upsert_items g now u n its dm = (Some e, d1)" by simp
    from Inr have fu: "feed_urls dm = feed_urls d" "feeds dm = feeds d" "meta dm = meta d"
      by (auto simp: upsert_article_def feed_urls_def split: if_splits)
    from Cons.IH [OF run] obtain k where
      k: "u \<notin> feed_urls d" "feeds d1 = feeds d" "meta d1 = meta d"
         "articles d1 = map (refreshed g now u n (take k its)) (articles dm)"
      unfolding fu by auto
    from Inr k(1) have "articles dm =
        map (\<lambda>old. if r_id old = r_id ?row then do_update_set ?row old else old) (articles d)"
      by (auto simp: upsert_article_def split: if_splits)
    with k(4) have "articles d1 = map (refreshed g now u n (take (Suc k) (it # its))) (articles d)"
      by (simp add: refreshed_Cons)
    with k show ?thesis by blast
  qed
qed

subsection \<open>upsertArticles keeps the schema\<close>

lemma wf_upsert_items_ok:
  assumes "wf_db d" and "upsert_items g now u n its d = (None, d1)"
  shows "wf_db d1"
proof -
  from upsert_items_ok [OF assms(2)] obtain new where
    n: "feeds d1 = feeds d" "meta d1 = meta d"
       "articles d1 = map (refreshed g now u n its) (articles d) @ new"
       "distinct (map r_id new)"
       "\<forall>x \<in> set new. r_feed_url x = u \<and> u \<in> feed_urls d \<and> r_id x \<notin> article_ids d"
    by blast
  have ids: "map r_id (articles d1) = map r_id (articles d) @ map r_id new"
    using n(3) by (simp add: o_def)
  have "set (map r_id (articles d)) \<inter> set (map r_id new) = {}"
  proof (rule ccontr)
    assume "set (map r_id (articles d)) \<inter> set (map r_id new) \<noteq> {}"
    then obtain i where i: "i \<in> set (map r_id (articles d))" "i \<in> set (map r_id new)" by blast
    then obtain x where "x \<in> set new" "r_id x = i" by auto
    with n(5) have "i \<notin> article_ids d" by auto
    with i(1) show False by (simp add: article_ids_def)
  qed
  then have "distinct (map r_id (articles d1))"
    unfolding ids using assms(1) n(4) by (simp add: wf_db_def)
  moreover have "list_all (\<lambda>r. r_feed_url r \<in> feed_urls d1) (articles d1)"
    using assms(1) n by (auto simp: wf_db_def list_all_iff feed_urls_def)
  ultimately show ?thesis using assms(1) n(1,2) by (simp add: wf_db_def)
qed

lemma wf_upsert_items_failed:
  assumes "wf_db d" and "upsert_items g now u n its d = (Some e, d1)"
  shows "wf_db d1"
proof -
  from upsert_items_failed [OF assms(2)] obtain k where
    k: "feeds d1 = feeds d" "meta d1 = meta d"
       "articles d1 = map (refreshed g now u n (take k its)) (articles d)"
    by blast
  then show ?thesis using assms(1)
    by (simp add: wf_db_def o_def list_all_iff feed_urls_def)
qed

lemma wf_delete_beyond_limit: "wf_db d \<Longrightarrow> wf_db (delete_beyond_limit u n d)"
  by (auto simp: wf_db_def delete_beyond_limit_def distinct_map_filter list_all_iff feed_urls_def)

lemma wf_upsertArticles:
  assumes "wf_db d" and "upsertArticles g now u n its d = (res, d')"
  shows "wf_db d'"
proof (cases "upsert_items g now u n its d")
  case (Pair r1 d1)
  show ?thesis
  proof (cases r1)
    case None
    with Pair assms show ?thesis
      by (auto simp: upsertArticles_def intro: wf_delete_beyond_limit wf_upsert_items_ok)
  next
    case (Some e)
    with Pair assms show ?thesis
      by (auto simp: upsertArticles_def intro: wf_upsert_items_failed)
  qed
qed

lemma upsertArticles_None:
  "upsertArticles g now u n its d = (None, d') \<longleftrightarrow>
     (\<exists>d1. upsert_items g now u n its d = (None, d1) \<and> d' = delete_beyond_limit u 500 d1)"
  by (auto simp: upsertArticles_def split: prod.splits option.splits)

lemma upsertArticles_Some:
  "upsertArticles g now u n its d = (Some e, d') \<longleftrightarrow> upsert_items g now u n its d = (Some e, d')"
  by (auto simp: upsertArticles_def split: prod.splits option.splits)

lemma upsert_article_live:
  "r_feed_url new \<in> feed_urls d \<Longrightarrow>
     \<exists>dm. upsert_article new d = Inr dm \<and> feed_urls dm = feed_urls d"
  by (simp add: upsert_article_def feed_urls_def)

lemma upsert_items_total:
  "u \<in> feed_urls d \<Longrightarrow> fst (upsert_items g now u n its d) = None"
proof (induction its arbitrary: d)
  case Nil
  then show ?case by simp
next
  case (Cons it its)
  then obtain dm where dm: "upsert_article (item_row g now u n it) d = Inr dm" "feed_urls dm = feed_urls d"
    using upsert_article_live [of "item_row g now u n it" d] by auto
  with Cons show ?case by simp
qed

text \<open>A call for a feed that is subscribed succeeds.\<close>

lemma upsertArticles_succeeds:
  "u \<in> feed_urls d \<Longrightarrow> fst (upsertArticles g now u n its d) = None"
  using upsert_items_total [of u d g now n its]
  by (cases "upsert_items g now u n its d") (auto simp: upsertArticles_def)

subsection \<open>The store at the cap\<close>

text \<open>A row that at least \<open>n\<close> prunable rows are strictly newer than does not survive the
  pruning step.\<close>

lemma prune_deletes:
  assumes dist: "distinct (map r_id (articles d))"
    and r: "r \<in> set (articles d)" "prunable u r"
    and many: "n \<le> length (filter (\<lambda>s. prunable u s \<and> order_key s < order_key r) (articles d))"
  shows "r_id r \<notin> article_ids (delete_beyond_limit u n d)"
proof -
  let ?F = "filter (prunable u) (articles d)"
  let ?S = "order_by_ts_desc ?F"
  let ?Q = "\<lambda>s. order_key s < order_key r"
  have dS: "distinct ?S"
    using dist by (metis distinct_rows distinct_filter mset_order_by mset_eq_imp_distinct_iff)
  have len: "length (filter ?Q ?S) = length (filter (\<lambda>s. prunable u s \<and> order_key s < order_key r) (articles d))"
  proof -
    have "mset (filter ?Q ?S) = mset (filter ?Q ?F)" by (metis mset_filter mset_order_by)
    then have "length (filter ?Q ?S) = length (filter ?Q ?F)" by (rule mset_eq_length)
    then show ?thesis by (simp add: conj_commute)
  qed
  have notin: "r \<notin> set (take n ?S)"
  proof
    assume rin: "r \<in> set (take n ?S)"
    have sub: "set (filter ?Q ?S) \<subseteq> set (take n ?S) - {r}"
    proof
      fix s assume "s \<in> set (filter ?Q ?S)"
      then have s: "s \<in> set ?S" "order_key s < order_key r" by auto
      then have "s \<noteq> r" by auto
      moreover have "s \<in> set (take n ?S)"
      proof (rule ccontr)
        assume "s \<notin> set (take n ?S)"
        with s(1) have "s \<in> set (drop n ?S)" by (metis Un_iff append_take_drop_id set_append)
        with rin have "order_key r \<le> order_key s" by (rule take_drop_sorted)
        with s(2) show False by simp
      qed
      ultimately show "s \<in> set (take n ?S) - {r}" by simp
    qed
    have "distinct (filter ?Q ?S)" using dS by simp
    then have "length (filter ?Q ?S) = card (set (filter ?Q ?S))"
      by (rule distinct_card [symmetric])
    also have "\<dots> \<le> card (set (take n ?S) - {r})"
      using sub by (simp add: card_mono)
    also have "\<dots> < card (set (take n ?S))"
      using rin by (intro card_Diff1_less) simp_all
    also have "\<dots> \<le> length (take n ?S)" by (rule card_length)
    also have "\<dots> \<le> n" by simp
    finally show False using many len by simp
  qed
  show ?thesis
  proof
    assume "r_id r \<in> article_ids (delete_beyond_limit u n d)"
    then obtain s where s: "s \<in> set (articles (delete_beyond_limit u n d))" "r_id s = r_id r"
      by (auto simp: article_ids_def)
    then have "s \<in> set (articles d)" using prune_subset by blast
    with s(2) r(1) dist have "s = r" by (metis distinct_map inj_onD)
    with s(1) r(2) notin show False unfolding prune_filter [OF dist] by simp
  qed
qed

text \<open>A row that fewer than \<open>n\<close> other prunable rows are at least as new as survives the
  pruning step, however the rows with equal keys are ordered.\<close>

lemma prune_keeps_new_enough:
  assumes dist: "distinct (map r_id (articles d))"
    and r: "r \<in> set (articles d)" "prunable u r"
    and few: "length (filter (\<lambda>s. prunable u s \<and> order_key s \<le> order_key r) (articles d)) \<le> n"
  shows "r \<in> set (articles (delete_beyond_limit u n d))"
proof -
  let ?F = "filter (prunable u) (articles d)"
  let ?S = "order_by_ts_desc ?F"
  let ?Q = "\<lambda>s. order_key s \<le> order_key r"
  have dS: "distinct ?S"
    using dist by (metis distinct_rows distinct_filter mset_order_by mset_eq_imp_distinct_iff)
  have len: "length (filter ?Q ?S) = length (filter (\<lambda>s. prunable u s \<and> order_key s \<le> order_key r) (articles d))"
  proof -
    have "mset (filter ?Q ?S) = mset (filter ?Q ?F)" by (metis mset_filter mset_order_by)
    then have "length (filter ?Q ?S) = length (filter ?Q ?F)" by (rule mset_eq_length)
    then show ?thesis by (simp add: conj_commute)
  qed
  from r have rS: "r \<in> set ?S" by (simp add: set_order_by)
  have "r \<in> set (take n ?S)"
  proof (rule ccontr)
    assume out: "r \<notin> set (take n ?S)"
    with rS have rd: "r \<in> set (drop n ?S)" by (metis Un_iff append_take_drop_id set_append)
    then have "drop n ?S \<noteq> []" by auto
    then have long: "n < length ?S" by simp
    have sub: "insert r (set (take n ?S)) \<subseteq> set (filter ?Q ?S)"
    proof
      fix s assume "s \<in> insert r (set (take n ?S))"
      then consider "s = r" | "s \<in> set (take n ?S)" by blast
      then show "s \<in> set (filter ?Q ?S)"
      proof cases
        case 1
        with rS show ?thesis by simp
      next
        case 2
        then have "order_key s \<le> order_key r" using rd by (rule take_drop_sorted)
        moreover from 2 have "s \<in> set ?S" by (rule in_set_takeD)
        ultimately show ?thesis by simp
      qed
    qed
    have "distinct (take n ?S)" using dS by (rule distinct_take)
    then have "card (set (take n ?S)) = length (take n ?S)" by (rule distinct_card)
    with long have "card (set (take n ?S)) = n" by simp
    with out have c: "card (insert r (set (take n ?S))) = Suc n" by simp
    have "card (insert r (set (take n ?S))) \<le> card (set (filter ?Q ?S))"
      by (rule card_mono) (use sub in simp_all)
    also have "\<dots> \<le> length (filter ?Q ?S)" by (rule card_length)
    finally show False using few len c by simp
  qed
  with r(1) show ?thesis unfolding prune_filter [OF dist] by simp
qed

text \<open>The rows that the pruning step keeps, by the ids that its inner \<^verbatim>\<open>SELECT\<close> returns.\<close>

lemma prune_kept_iff:
  assumes "r \<in> set (articles d)"
  shows "r \<in> set (articles (delete_beyond_limit u n d)) \<longleftrightarrow>
         \<not> prunable u r \<or> r_id r \<in> set (newest_ids u n (articles d))"
  using assms by (auto simp: delete_beyond_limit_def)

lemma prune_id_kept:
  assumes "distinct (map r_id (articles d))" and "r \<in> set (articles d)"
  shows "r_id r \<in> article_ids (delete_beyond_limit u n d) \<longleftrightarrow>
         r \<in> set (articles (delete_beyond_limit u n d))"
  unfolding article_ids_def
  using id_in_sub [OF assms(1) prune_subset assms(2)] .

lemma newer_key: "newer u r rows = filter (\<lambda>s. prunable u s \<and> order_key s < order_key r) rows"
  unfolding newer_def by (rule filter_cong) (auto simp: order_key_le [symmetric])

lemma not_older_key:
  "not_older u r rows = filter (\<lambda>s. prunable u s \<and> order_key s \<le> order_key r) rows"
  unfolding not_older_def by (simp add: order_key_le)

lemma filter_full:
  "length (filter P xs) = length xs \<Longrightarrow> filter P xs = xs"
  by (metis filter_id_conv length_filter_less less_irrefl)

text \<open>The big store.\<close>

lemma big_row_simps [simp]:
  "r_id (big_row k) = ''f::a'' @ replicate k CHR ''b''"
  "r_feed_url (big_row k) = ''f''"
  "r_is_starred (big_row k) = 0"
  "r_published_ts (big_row k) = int k + 1"
  by (simp_all add: big_row_def ex_row_def)

lemma big_ids_distinct: "distinct (map r_id (map big_row [0..<m]))"
proof -
  have "inj_on (\<lambda>k. ''f::a'' @ replicate k CHR ''b'') (set [0..<m])"
    by (rule inj_onI) (auto dest: arg_cong [where f = length])
  then show ?thesis by (simp add: distinct_map o_def)
qed

lemma wf_big_db: "wf_db big_db"
  using big_ids_distinct [of 500]
  by (simp add: wf_db_def big_db_def list_all_iff feed_urls_def ex_feed_def)

lemma old_row_simps [simp]:
  "r_id (old_row now) = ''f::x''" "r_feed_url (old_row now) = ''f''"
  "r_is_starred (old_row now) = 0" "r_published_ts (old_row now) = 0"
  by (simp_all add: old_row_def item_row_def article_id_def old_item_def default_is_starred_def
      publishedTs_def)

lemma upsert_old_big:
  "upsert_items no_date now ''f'' ''F'' [old_item] big_db =
     (None, big_db\<lparr>articles := map big_row [0..<500] @ [old_row now]\<rparr>)"
proof -
  have "r_id (item_row no_date now ''f'' ''F'' old_item) \<notin> article_ids big_db"
    by (auto simp: article_ids_def big_db_def item_row_def article_id_def old_item_def)
  moreover have "''f'' \<in> feed_urls big_db" by (simp add: feed_urls_def big_db_def ex_feed_def)
  ultimately show ?thesis
    by (simp add: upsert_article_def old_row_def) (simp add: big_db_def)
qed

lemma old_pruned:
  "''f::x'' \<notin> article_ids (delete_beyond_limit ''f'' 500 (big_db\<lparr>articles := map big_row [0..<500] @ [old_row now]\<rparr>))"
proof -
  let ?d = "big_db\<lparr>articles := map big_row [0..<500] @ [old_row now]\<rparr>"
  have dist: "distinct (map r_id (articles ?d))"
    using big_ids_distinct [of 500] by auto
  have r: "old_row now \<in> set (articles ?d)" "prunable ''f'' (old_row now)"
    by (simp_all add: prunable_def)
  have "filter (\<lambda>s. prunable ''f'' s \<and> order_key s < order_key (old_row now)) (map big_row [0..<500]) =
        map big_row [0..<500]"
    by (simp add: filter_id_conv prunable_def order_key_def less_prod_def)
  then have many: "500 \<le> length (filter (\<lambda>s. prunable ''f'' s \<and> order_key s < order_key (old_row now)) (articles ?d))"
    by simp
  from prune_deletes [OF dist r many] show ?thesis by simp
qed

lemma old_call_big:
  "upsertArticles no_date now ''f'' ''F'' [old_item] big_db = (None, big_db)"
proof -
  define B where "B = map big_row [0..<500]"
  define d1 where "d1 = big_db\<lparr>articles := B @ [old_row now]\<rparr>"
  define K where "K = (\<lambda>r. \<not> (prunable ''f'' r \<and> r_id r \<notin> set (newest_ids ''f'' 500 (articles d1))))"
  have lenB: "length B = 500" by (simp add: B_def)
  have PB: "\<forall>r \<in> set B. prunable ''f'' r" by (auto simp: B_def prunable_def)
  have dist: "distinct (map r_id (articles d1))"
    using big_ids_distinct [of 500] by (auto simp: d1_def B_def)
  have gone: "old_row now \<notin> set (articles (delete_beyond_limit ''f'' 500 d1))"
  proof
    assume "old_row now \<in> set (articles (delete_beyond_limit ''f'' 500 d1))"
    then have "r_id (old_row now) \<in> article_ids (delete_beyond_limit ''f'' 500 d1)"
      unfolding article_ids_def set_map by (rule imageI)
    with old_pruned [of now] show False by (simp add: d1_def B_def)
  qed
  have split: "articles (delete_beyond_limit ''f'' 500 d1) = filter K B @ filter K [old_row now]"
    by (simp add: delete_beyond_limit_def K_def d1_def)
  from gone have g0: "filter K [old_row now] = []"
    unfolding split by (auto split: if_splits)
  have allP: "filter (prunable ''f'') (articles d1) = articles d1"
    by (rule filter_True) (use PB in \<open>auto simp: d1_def prunable_def\<close>)
  have "length (filter (prunable ''f'') (articles (delete_beyond_limit ''f'' 500 d1))) = 500"
    using prune_count [OF dist, of "''f''" 500] unfolding allP by (simp add: d1_def lenB)
  moreover have "filter (prunable ''f'') (filter K B) = filter K B"
    by (rule filter_True) (use PB in auto)
  ultimately have "length (filter K B) = length B"
    unfolding split g0 by (simp only: append_Nil2 lenB)
  then have "filter K B = B" by (rule filter_full)
  with split g0 have "articles (delete_beyond_limit ''f'' 500 d1) = B" by simp
  then have "delete_beyond_limit ''f'' 500 d1 = big_db"
    by (simp add: delete_beyond_limit_def big_db_def d1_def B_def)
  then show ?thesis
    unfolding upsertArticles_def upsert_old_big by (simp add: d1_def B_def)
qed

subsection \<open>Rows, ids and the pruning step\<close>

lemma prune_noop:
  assumes "distinct (map r_id (articles d))" and "length (filter (prunable u) (articles d)) \<le> n"
  shows "articles (delete_beyond_limit u n d) = articles d"
proof -
  have "take n (order_by_ts_desc (filter (prunable u) (articles d))) =
        order_by_ts_desc (filter (prunable u) (articles d))"
    using assms(2) by (simp add: length_order_by)
  then show ?thesis
    unfolding prune_filter [OF assms(1)] by (simp add: set_order_by filter_id_conv)
qed

lemma distinct_count:
  "distinct xs \<Longrightarrow> length (filter (\<lambda>x. x = i) xs) = (if i \<in> set xs then 1 else 0)"
  by (induction xs) auto

lemma id_count:
  assumes "distinct (map r_id rows)"
  shows "length (filter (\<lambda>r. r_id r = i) rows) = (if i \<in> set (map r_id rows) then 1 else 0)"
proof -
  have "length (filter (\<lambda>r. r_id r = i) rows) = length (filter (\<lambda>x. x = i) (map r_id rows))"
    by (simp add: filter_map o_def)
  then show ?thesis using distinct_count [OF assms, of i] by simp
qed

lemma upsert_article_ids:
  assumes "upsert_article new d = Inr dm"
  shows "article_ids dm = insert (r_id new) (article_ids d)"
proof (cases "r_id new \<in> article_ids d")
  case True
  with assms have "articles dm =
      map (\<lambda>old. if r_id old = r_id new then do_update_set new old else old) (articles d)"
    by (auto simp: upsert_article_def)
  then have "article_ids dm = article_ids d"
    by (simp add: article_ids_def o_def)
  with True show ?thesis by (simp add: insert_absorb)
next
  case False
  with assms show ?thesis
    by (auto simp: upsert_article_def article_ids_def default_is_read_def split: if_splits)
qed

lemma upsert_items_ids:
  "upsert_items g now u n its d = (None, d1) \<Longrightarrow>
     article_ids d \<union> article_id u ` set its \<subseteq> article_ids d1"
proof (induction its arbitrary: d)
  case Nil
  then show ?case by simp
next
  case (Cons it its)
  then obtain dm where dm: "upsert_article (item_row g now u n it) d = Inr dm"
      "upsert_items g now u n its dm = (None, d1)"
    by (auto split: sum.splits)
  from upsert_article_ids [OF dm(1)] have "article_ids d \<union> {article_id u it} \<subseteq> article_ids dm"
    by simp
  with Cons.IH [OF dm(2)] show ?case by auto
qed

lemma same_id_same_row:
  "distinct (map r_id rows) \<Longrightarrow> r \<in> set rows \<Longrightarrow> s \<in> set rows \<Longrightarrow> r_id r = r_id s \<Longrightarrow> r = s"
  by (metis distinct_map inj_onD)

lemma refreshed_Some:
  "last_entry u its (r_id r) = Some e \<Longrightarrow>
     refreshed g now u n its r =
       r\<lparr>r_feed_name := n, r_title := i_title e, r_link := i_link e,
         r_published := i_published e, r_published_ts := publishedTs g (i_published e),
         r_content := i_content e, r_author := i_author e, r_fetched_at := now\<rparr>"
  by (simp add: refreshed_def do_update_set_def item_row_def)

subsection \<open>Calls on the example stores\<close>

lemma ex_call:
  "upsertArticles no_date 200 ''fa'' ''Feed A'' [new_item] ex_db =
    (None, ex_db\<lparr>articles :=
       [(ex_row ''fa::1'' ''fa'' 0 200 1 1)\<lparr>r_feed_name := ''Feed A'', r_title := ''New title'',
           r_link := ''1'', r_published := [], r_content := ''new''\<rparr>,
        ex_row ''fb::1'' ''fb'' 30 100 0 0, ex_row ''fa::2'' ''fa'' 20 100 0 0]\<rparr>)"
  by (simp add: upsertArticles_def upsert_article_def item_row_def article_id_def new_item_def
      ex_db_def ex_row_def ex_feed_def article_ids_def feed_urls_def do_update_set_def
      publishedTs_def delete_beyond_limit_def newest_ids_def prunable_def order_by_ts_desc_def
      order_key_def less_eq_prod_def)

lemma wf_stale_db: "wf_db stale_db"
  using big_ids_distinct [of 499]
  by (auto simp: wf_db_def stale_db_def stale_row_def ex_row_def list_all_iff feed_urls_def ex_feed_def)

lemma stale_loop:
  assumes "article_id ''f'' x = ''f::x''"
  shows "upsert_items year_date 9 ''f'' ''F'' [x, fresh_item] stale_db =
     (None, stale_db\<lparr>articles :=
        do_update_set (item_row year_date 9 ''f'' ''F'' x) stale_row #
        map big_row [0..<499] @
        [(item_row year_date 9 ''f'' ''F'' fresh_item)
           \<lparr>r_is_read := default_is_read, r_is_starred := default_is_starred\<rparr>]\<rparr>)"
proof -
  let ?d1 = "stale_db\<lparr>articles := do_update_set (item_row year_date 9 ''f'' ''F'' x) stale_row #
        map big_row [0..<499]\<rparr>"
  have s1: "upsert_article (item_row year_date 9 ''f'' ''F'' x) stale_db = Inr ?d1"
    using assms
    by (simp add: upsert_article_def article_ids_def stale_db_def stale_row_def ex_row_def o_def)
  have "r_id (item_row year_date 9 ''f'' ''F'' fresh_item) \<notin> article_ids ?d1"
    by (auto simp: article_ids_def stale_row_def ex_row_def article_id_def fresh_item_def)
  moreover have "''f'' \<in> feed_urls ?d1" by (simp add: feed_urls_def stale_db_def ex_feed_def)
  ultimately have s2: "upsert_article (item_row year_date 9 ''f'' ''F'' fresh_item) ?d1 =
      Inr (?d1\<lparr>articles := articles ?d1 @
        [(item_row year_date 9 ''f'' ''F'' fresh_item)
           \<lparr>r_is_read := default_is_read, r_is_starred := default_is_starred\<rparr>]\<rparr>)"
    by (simp add: upsert_article_def)
  show ?thesis by (simp add: s1 s2)
qed

lemma stale_call:
  "fst (upsertArticles year_date 9 ''f'' ''F'' its stale_db) = None"
  by (rule upsertArticles_succeeds) (simp add: feed_urls_def stale_db_def ex_feed_def)

subsection \<open>What a call leaves alone\<close>

lemma filter_map_fixed:
  "\<forall>r \<in> set xs. Q (f r) = Q r \<and> (Q r \<longrightarrow> f r = r) \<Longrightarrow> filter Q (map f xs) = filter Q xs"
  by (induction xs) auto

lemma upsert_items_frame:
  assumes "upsert_items g now u n its d = (res, d1)"
  shows "filter (\<lambda>r. r_feed_url r \<noteq> u \<and> r_id r \<notin> article_id u ` set its) (articles d1) =
         filter (\<lambda>r. r_feed_url r \<noteq> u \<and> r_id r \<notin> article_id u ` set its) (articles d)"
proof -
  let ?Q = "\<lambda>r. r_feed_url r \<noteq> u \<and> r_id r \<notin> article_id u ` set its"
  have upd: "filter ?Q (map (refreshed g now u n (take k its)) (articles d)) = filter ?Q (articles d)" for k
  proof (rule filter_map_fixed, intro ballI conjI impI)
    fix r assume "r \<in> set (articles d)"
    show "?Q (refreshed g now u n (take k its) r) = ?Q r" by simp
    assume "?Q r"
    then have "r_id r \<notin> article_id u ` set (take k its)" by (auto dest: in_set_takeD)
    then show "refreshed g now u n (take k its) r = r" by (rule refreshed_other)
  qed
  show ?thesis
  proof (cases res)
    case None
    with upsert_items_ok [of g now u n its d d1] assms obtain new where
      n: "articles d1 = map (refreshed g now u n its) (articles d) @ new"
         "\<forall>x \<in> set new. r_feed_url x = u" by auto
    from n(2) have "filter ?Q new = []" by (auto simp: filter_empty_conv)
    with n(1) upd [of "length its"] show ?thesis by simp
  next
    case (Some e)
    with upsert_items_failed [of g now u n its d e d1] assms obtain k where
      "articles d1 = map (refreshed g now u n (take k its)) (articles d)" by auto
    with upd [of k] show ?thesis by simp
  qed
qed

subsection \<open>Retention\<close>

text \<open>
  Claim C3.  After a call \<open>upsertArticles feedUrl feedName items\<close> on a store that satisfies
  the schema, whether the call succeeds or not, the store holds at most 500 articles with
  \<open>is_starred = 0\<close> and this \<open>feed_url\<close>, and every article that was starred before the
  call is still stored, still starred.  When the call succeeds, the pruning step only
  deletes, deletes no starred row, leaves \<open>min 500 n\<close> of the feed's \<open>n\<close> unstarred rows,
  and every unstarred row of the feed it keeps is at least as new, by
  (\<open>published_ts\<close>, \<open>fetched_at\<close>), as every row it deletes.
\<close>

theorem upsertArticles_retention:
  assumes "wf_db d" and "upsertArticles getTime now feedUrl feedName items d = (res, d')"
  shows "length (filter (prunable feedUrl) (articles d')) \<le> 500 \<and>
    (\<forall>r \<in> set (articles d). r_is_starred r \<noteq> 0 \<longrightarrow>
        (\<exists>r' \<in> set (articles d'). r_id r' = r_id r \<and> r_is_starred r' = r_is_starred r)) \<and>
    (res = None \<longrightarrow>
       set (articles d') \<subseteq> set (articles (snd (upsert_items getTime now feedUrl feedName items d))) \<and>
       (\<forall>r \<in> set (articles (snd (upsert_items getTime now feedUrl feedName items d))).
           r_is_starred r \<noteq> 0 \<longrightarrow> r \<in> set (articles d')) \<and>
       length (filter (prunable feedUrl) (articles d')) =
         min 500 (length (filter (prunable feedUrl)
                    (articles (snd (upsert_items getTime now feedUrl feedName items d))))) \<and>
       (\<forall>kept \<in> set (articles d').
          \<forall>gone \<in> set (articles (snd (upsert_items getTime now feedUrl feedName items d))) - set (articles d').
            prunable feedUrl kept \<longrightarrow> at_least_as_new kept gone))"
proof (cases res)
  case None
  with assms(2) obtain d1 where
    d1: "upsert_items getTime now feedUrl feedName items d = (None, d1)"
        "d' = delete_beyond_limit feedUrl 500 d1"
    by (auto simp: upsertArticles_None)
  have wf1: "wf_db d1" by (rule wf_upsert_items_ok [OF assms(1) d1(1)])
  then have dist: "distinct (map r_id (articles d1))" by (simp add: wf_db_def)
  have c: "length (filter (prunable feedUrl) (articles d')) =
        min 500 (length (filter (prunable feedUrl) (articles d1)))"
    unfolding d1(2) by (rule prune_count [OF dist])
  have sub: "set (articles d') \<subseteq> set (articles d1)"
    unfolding d1(2) by (rule prune_subset)
  have st: "\<forall>r \<in> set (articles d1). r_is_starred r \<noteq> 0 \<longrightarrow> r \<in> set (articles d')"
    unfolding d1(2) by (auto intro: prune_keeps_others simp: prunable_def)
  have nw: "\<forall>kept \<in> set (articles d'). \<forall>gone \<in> set (articles d1) - set (articles d').
            prunable feedUrl kept \<longrightarrow> at_least_as_new kept gone"
    unfolding d1(2) using prune_newest [OF dist] by (auto simp: order_key_le)
  have old: "\<forall>r \<in> set (articles d). r_is_starred r \<noteq> 0 \<longrightarrow>
        (\<exists>r' \<in> set (articles d'). r_id r' = r_id r \<and> r_is_starred r' = r_is_starred r)"
  proof (intro ballI impI)
    fix r assume r: "r \<in> set (articles d)" "r_is_starred r \<noteq> 0"
    from upsert_items_ok [OF d1(1)] r(1)
    have "refreshed getTime now feedUrl feedName items r \<in> set (articles d1)" by auto
    with st r(2) have "refreshed getTime now feedUrl feedName items r \<in> set (articles d')" by simp
    then show "\<exists>r' \<in> set (articles d'). r_id r' = r_id r \<and> r_is_starred r' = r_is_starred r"
      by (rule bexI [rotated]) simp
  qed
  from c have "length (filter (prunable feedUrl) (articles d')) \<le> 500" by simp
  with c sub st nw old show ?thesis by (simp add: d1(1))
next
  case (Some e)
  with assms(2) have f: "upsert_items getTime now feedUrl feedName items d = (Some e, d')"
    by (simp add: upsertArticles_Some)
  from upsert_items_failed [OF f] obtain k where
    k: "feedUrl \<notin> feed_urls d"
       "articles d' = map (refreshed getTime now feedUrl feedName (take k items)) (articles d)"
    by blast
  from k(1) assms(1) have none: "\<forall>r \<in> set (articles d). r_feed_url r \<noteq> feedUrl"
    by (auto simp: wf_db_def list_all_iff)
  have "filter (prunable feedUrl) (articles d') = []"
    unfolding k(2) using none by (auto simp: filter_empty_conv prunable_def)
  moreover have "\<forall>r \<in> set (articles d). r_is_starred r \<noteq> 0 \<longrightarrow>
        (\<exists>r' \<in> set (articles d'). r_id r' = r_id r \<and> r_is_starred r' = r_is_starred r)"
  proof (intro ballI impI)
    fix r assume "r \<in> set (articles d)"
    then have "refreshed getTime now feedUrl feedName (take k items) r \<in> set (articles d')"
      unfolding k(2) by simp
    then show "\<exists>r' \<in> set (articles d'). r_id r' = r_id r \<and> r_is_starred r' = r_is_starred r"
      by (rule bexI [rotated]) simp
  qed
  ultimately show ?thesis using Some by simp
qed

theorem upsertArticles_retention_witness:
  "wf_db big_db \<and>
   upsertArticles no_date 9 ''f'' ''F'' [old_item] big_db = (None, big_db) \<and>
   length (articles (snd (upsert_items no_date 9 ''f'' ''F'' [old_item] big_db))) = 501 \<and>
   length (filter (prunable ''f'') (articles big_db)) = 500"
proof -
  define before where "before = articles (snd (upsert_items no_date 9 ''f'' ''F'' [old_item] big_db))"
  have b: "before = map big_row [0..<500] @ [old_row 9]"
    unfolding before_def upsert_old_big by simp
  have l1: "length before = 501" unfolding b by simp
  have l2: "length (filter (prunable ''f'') before) = 501"
    unfolding b by (simp add: prunable_def)
  from upsertArticles_retention [OF wf_big_db old_call_big [of 9]]
  have "length (filter (prunable ''f'') (articles big_db)) =
        min 500 (length (filter (prunable ''f'') before))"
    unfolding before_def by blast
  with l2 have "length (filter (prunable ''f'') (articles big_db)) = 500" by simp
  with l1 wf_big_db old_call_big [of 9] show ?thesis unfolding before_def by blast
qed

subsection \<open>Sticky user state\<close>

text \<open>
  Claim C2, as it is stated, fails: the pruning step that ends the call can delete the
  article that the call has just updated.  In \<open>stale_db\<close> the feed holds 500 unstarred
  articles, \<open>stale_row\<close> the oldest; the refresh brings its entry again and one new entry,
  and the call ends with \<open>stale_row\<close>'s id gone from the store.
\<close>

theorem upsert_sticky_counterexample:
  "wf_db stale_db \<and>
   stale_row \<in> set (articles stale_db) \<and>
   old_item \<in> set [old_item, fresh_item] \<and>
   article_id ''f'' old_item = r_id stale_row \<and>
   fst (upsertArticles year_date 9 ''f'' ''F'' [old_item, fresh_item] stale_db) = None \<and>
   r_id stale_row \<notin> article_ids (snd (upsertArticles year_date 9 ''f'' ''F'' [old_item, fresh_item] stale_db))"
proof -
  define r1 where "r1 = do_update_set (item_row year_date 9 ''f'' ''F'' old_item) stale_row"
  define r2 where "r2 = (item_row year_date 9 ''f'' ''F'' fresh_item)
           \<lparr>r_is_read := default_is_read, r_is_starred := default_is_starred\<rparr>"
  define d1 where "d1 = stale_db\<lparr>articles := r1 # map big_row [0..<499] @ [r2]\<rparr>"
  have loop: "upsert_items year_date 9 ''f'' ''F'' [old_item, fresh_item] stale_db = (None, d1)"
    unfolding d1_def r1_def r2_def
    by (rule stale_loop) (simp add: article_id_def old_item_def)
  have r1: "r_id r1 = ''f::x''" "prunable ''f'' r1" "order_key r1 = (0, -9)"
    by (simp_all add: r1_def stale_row_def ex_row_def prunable_def order_key_def item_row_def
        do_update_set_def publishedTs_def old_item_def)
  have r2: "r_id r2 = ''f::y''" "prunable ''f'' r2" "order_key r2 = (-1704067200000, -9)"
    by (simp_all add: r2_def prunable_def order_key_def item_row_def article_id_def
        publishedTs_def fresh_item_def year_date_def default_is_starred_def)
  note wf = wf_stale_db
  have dist: "distinct (map r_id (articles d1))"
    using wf_upsert_items_ok [OF wf loop] by (simp add: wf_db_def)
  have kb: "order_key (big_row k) = (- (int k + 1), - 5)" "prunable ''f'' (big_row k)" for k
    by (simp_all add: order_key_def big_row_def ex_row_def prunable_def)
  have "filter (\<lambda>s. prunable ''f'' s \<and> order_key s < order_key r1) (articles d1) =
        map big_row [0..<499] @ [r2]"
    by (simp add: d1_def r1 r2 kb less_prod_def filter_id_conv)
  then have many: "500 \<le> length (filter (\<lambda>s. prunable ''f'' s \<and> order_key s < order_key r1) (articles d1))"
    by simp
  have "r1 \<in> set (articles d1)" by (simp add: d1_def)
  from prune_deletes [OF dist this r1(2) many]
  have "''f::x'' \<notin> article_ids (delete_beyond_limit ''f'' 500 d1)" by (simp add: r1)
  moreover have "upsertArticles year_date 9 ''f'' ''F'' [old_item, fresh_item] stale_db =
      (None, delete_beyond_limit ''f'' 500 d1)"
    unfolding upsertArticles_def loop by simp
  moreover have "article_id ''f'' old_item = r_id stale_row"
    by (simp add: article_id_def old_item_def stale_row_def ex_row_def)
  moreover have "stale_row \<in> set (articles stale_db)" by (simp add: stale_db_def)
  moreover have "r_id stale_row = ''f::x''" by (simp add: stale_row_def ex_row_def)
  ultimately show ?thesis using wf by simp
qed

text \<open>
  Claim C2, amended.  When a call of \<open>upsertArticles\<close> on a store that satisfies the schema
  succeeds, and a stored article \<open>r\<close> has the derived id of an entry of the list, then the
  store afterwards holds no other row with this id than \<open>r1\<close>: the row \<open>r\<close> with its
  \<open>feed_name\<close>, \<open>title\<close>, \<open>link\<close>, \<open>published\<close>, \<open>published_ts\<close>, \<open>content\<close>, \<open>author\<close> and
  \<open>fetched_at\<close> overwritten from the last entry of the list with this id, and \<open>id\<close>,
  \<open>feed_url\<close>, \<open>is_read\<close> and \<open>is_starred\<close> as they were.  The store holds \<open>r1\<close> unless the
  pruning step of the same call has deleted it, and it has deleted it exactly when \<open>r\<close> is
  unstarred, belongs to the feed of the call, and is not among the 500 rows that the
  inner \<^verbatim>\<open>SELECT\<close> of the pruning step returns.  So \<open>r1\<close> is stored whenever at most 500
  unstarred rows of the feed (\<open>r1\<close> among them) are at least as new as \<open>r1\<close> when the loop
  ends, and it is deleted whenever \<open>r\<close> is an unstarred row of the feed and 500 such rows
  are strictly newer.
\<close>

theorem upsertArticles_sticky:
  assumes "wf_db d" and "r \<in> set (articles d)"
    and "it \<in> set items" and "article_id feedUrl it = r_id r"
    and "upsertArticles getTime now feedUrl feedName items d = (None, d')"
  shows "\<exists>e r1. last_entry feedUrl items (r_id r) = Some e \<and>
           r1 = r\<lparr>r_feed_name := feedName, r_title := i_title e, r_link := i_link e,
                  r_published := i_published e,
                  r_published_ts := publishedTs getTime (i_published e),
                  r_content := i_content e, r_author := i_author e,
                  r_fetched_at := now\<rparr> \<and>
           (\<forall>r' \<in> set (articles d'). r_id r' = r_id r \<longrightarrow> r' = r1) \<and>
           (r1 \<in> set (articles d') \<longleftrightarrow>
              r_is_starred r \<noteq> 0 \<or> r_feed_url r \<noteq> feedUrl \<or>
              r_id r \<in> set (newest_ids feedUrl 500
                 (articles (snd (upsert_items getTime now feedUrl feedName items d))))) \<and>
           (length (not_older feedUrl r1
                (articles (snd (upsert_items getTime now feedUrl feedName items d)))) \<le> 500
            \<longrightarrow> r1 \<in> set (articles d')) \<and>
           (r_is_starred r = 0 \<and> r_feed_url r = feedUrl \<and>
            500 \<le> length (newer feedUrl r1
                (articles (snd (upsert_items getTime now feedUrl feedName items d))))
            \<longrightarrow> r1 \<notin> set (articles d'))"
proof -
  from assms(5) obtain d1 where
    d1: "upsert_items getTime now feedUrl feedName items d = (None, d1)"
        "d' = delete_beyond_limit feedUrl 500 d1"
    by (auto simp: upsertArticles_None)
  have wf1: "wf_db d1" by (rule wf_upsert_items_ok [OF assms(1) d1(1)])
  then have dist1: "distinct (map r_id (articles d1))" by (simp add: wf_db_def)
  from assms(3,4) have "r_id r \<in> article_id feedUrl ` set items" by (metis imageI)
  then have "last_entry feedUrl items (r_id r) \<noteq> None"
    by (simp add: last_entry_None)
  then obtain e where e: "last_entry feedUrl items (r_id r) = Some e" by auto
  define r1 where "r1 = refreshed getTime now feedUrl feedName items r"
  have r1: "r_id r1 = r_id r" "r_is_starred r1 = r_is_starred r" "r_feed_url r1 = r_feed_url r"
    by (simp_all add: r1_def)
  have val: "r1 = r\<lparr>r_feed_name := feedName, r_title := i_title e, r_link := i_link e,
                  r_published := i_published e,
                  r_published_ts := publishedTs getTime (i_published e),
                  r_content := i_content e, r_author := i_author e,
                  r_fetched_at := now\<rparr>"
    unfolding r1_def by (rule refreshed_Some [OF e])
  from upsert_items_ok [OF d1(1)] assms(2) have in1: "r1 \<in> set (articles d1)"
    by (auto simp: r1_def)
  have uniq: "\<forall>r' \<in> set (articles d'). r_id r' = r_id r \<longrightarrow> r' = r1"
  proof (intro ballI impI)
    fix r' assume "r' \<in> set (articles d')" "r_id r' = r_id r"
    moreover then have "r' \<in> set (articles d1)" unfolding d1(2) using prune_subset by blast
    ultimately show "r' = r1" using same_id_same_row [OF dist1 _ in1] by (simp add: r1)
  qed
  have kept: "r1 \<in> set (articles d') \<longleftrightarrow>
      r_is_starred r \<noteq> 0 \<or> r_feed_url r \<noteq> feedUrl \<or>
      r_id r \<in> set (newest_ids feedUrl 500 (articles d1))"
    unfolding d1(2) prune_kept_iff [OF in1] by (auto simp: prunable_def r1)
  have enough: "r1 \<in> set (articles d')" if "length (not_older feedUrl r1 (articles d1)) \<le> 500"
  proof (cases "prunable feedUrl r1")
    case True
    from that show ?thesis
      unfolding d1(2) not_older_key by (intro prune_keeps_new_enough [OF dist1 in1 True])
  next
    case False
    with in1 show ?thesis unfolding d1(2) by (intro prune_keeps_others)
  qed
  have gone: "r1 \<notin> set (articles d')"
    if "r_is_starred r = 0 \<and> r_feed_url r = feedUrl \<and> 500 \<le> length (newer feedUrl r1 (articles d1))"
  proof -
    from that have p: "prunable feedUrl r1" by (simp add: prunable_def r1)
    from that have "500 \<le> length (filter (\<lambda>s. prunable feedUrl s \<and> order_key s < order_key r1) (articles d1))"
      by (simp add: newer_key)
    from prune_deletes [OF dist1 in1 p this]
    show ?thesis unfolding d1(2) prune_id_kept [OF dist1 in1] .
  qed
  from e val uniq kept enough gone show ?thesis unfolding d1(1) snd_conv by blast
qed

theorem upsertArticles_sticky_witness:
  "wf_db stale_db \<and>
   stale_row \<in> set (articles stale_db) \<and>
   dated_item \<in> set [dated_item, fresh_item] \<and>
   article_id ''f'' dated_item = r_id stale_row \<and>
   fst (upsertArticles year_date 9 ''f'' ''F'' [dated_item, fresh_item] stale_db) = None \<and>
   length (filter (prunable ''f'')
     (articles (snd (upsert_items year_date 9 ''f'' ''F'' [dated_item, fresh_item] stale_db)))) = 501 \<and>
   r_is_read stale_row = 1 \<and>
   stale_row\<lparr>r_feed_name := ''F'', r_title := ''T'', r_link := ''x'', r_published := ''2024'',
             r_published_ts := 1704067200000, r_content := ''c'', r_author := ''w'',
             r_fetched_at := 9\<rparr>
     \<in> set (articles (snd (upsertArticles year_date 9 ''f'' ''F'' [dated_item, fresh_item] stale_db)))"
proof -
  define D where "D = snd (upsertArticles year_date 9 ''f'' ''F'' [dated_item, fresh_item] stale_db)"
  define r1 where "r1 = do_update_set (item_row year_date 9 ''f'' ''F'' dated_item) stale_row"
  define r2 where "r2 = (item_row year_date 9 ''f'' ''F'' fresh_item)
           \<lparr>r_is_read := default_is_read, r_is_starred := default_is_starred\<rparr>"
  define d1 where "d1 = stale_db\<lparr>articles := r1 # map big_row [0..<499] @ [r2]\<rparr>"
  have call: "upsertArticles year_date 9 ''f'' ''F'' [dated_item, fresh_item] stale_db = (None, D)"
    unfolding D_def using stale_call [of "[dated_item, fresh_item]"]
    by (metis prod.collapse)
  have loop: "upsert_items year_date 9 ''f'' ''F'' [dated_item, fresh_item] stale_db = (None, d1)"
    unfolding d1_def r1_def r2_def
    by (rule stale_loop) (simp add: article_id_def dated_item_def)
  have h2: "stale_row \<in> set (articles stale_db)" by (simp add: stale_db_def)
  have h3: "dated_item \<in> set [dated_item, fresh_item]" by simp
  have h4: "article_id ''f'' dated_item = r_id stale_row"
    by (simp add: article_id_def dated_item_def stale_row_def ex_row_def)
  have le: "last_entry ''f'' [dated_item, fresh_item] (r_id stale_row) = Some dated_item"
    by (simp add: last_entry_def article_id_def dated_item_def fresh_item_def stale_row_def ex_row_def)
  have k1: "order_key r1 = (-1704067200000, -9)" "prunable ''f'' r1"
    by (simp_all add: r1_def stale_row_def ex_row_def prunable_def order_key_def item_row_def
        do_update_set_def publishedTs_def dated_item_def year_date_def)
  have k2: "order_key r2 = (-1704067200000, -9)" "prunable ''f'' r2"
    by (simp_all add: r2_def prunable_def order_key_def item_row_def article_id_def
        publishedTs_def fresh_item_def year_date_def default_is_starred_def)
  have kb: "order_key (big_row k) = (- (int k + 1), - 5)" "prunable ''f'' (big_row k)" for k
    by (simp_all add: order_key_def big_row_def ex_row_def prunable_def)
  have val: "r1 = stale_row\<lparr>r_feed_name := ''F'', r_title := ''T'', r_link := ''x'',
             r_published := ''2024'', r_published_ts := 1704067200000, r_content := ''c'',
             r_author := ''w'', r_fetched_at := 9\<rparr>"
    by (simp add: r1_def do_update_set_def item_row_def dated_item_def publishedTs_def year_date_def)
  have "not_older ''f'' r1 (articles d1) = [r1, r2]"
    unfolding not_older_key
    by (simp add: d1_def k1 k2 kb less_eq_prod_def filter_empty_conv)
  then have few: "length (not_older ''f'' r1 (articles (snd (upsert_items year_date 9 ''f'' ''F''
      [dated_item, fresh_item] stale_db)))) \<le> 500"
    unfolding loop by simp
  have all: "length (filter (prunable ''f'') (articles d1)) = 501"
    by (simp add: d1_def k1 k2 kb)
  from upsertArticles_sticky [OF wf_stale_db h2 h3 h4 call] obtain e r where
    er: "Some dated_item = Some e"
      "r = stale_row\<lparr>r_feed_name := ''F'', r_title := i_title e, r_link := i_link e,
             r_published := i_published e,
             r_published_ts := publishedTs year_date (i_published e),
             r_content := i_content e, r_author := i_author e,
             r_fetched_at := 9\<rparr>"
      "length (not_older ''f'' r (articles (snd (upsert_items year_date 9 ''f'' ''F''
          [dated_item, fresh_item] stale_db)))) \<le> 500 \<longrightarrow> r \<in> set (articles D)"
    unfolding le by blast
  from er(1) have "e = dated_item" by simp
  with er(2) have "r = r1"
    unfolding val by (simp add: dated_item_def publishedTs_def year_date_def)
  with er(3) few have "r1 \<in> set (articles D)" by simp
  moreover have "r_is_read stale_row = 1" by (simp add: stale_row_def ex_row_def)
  moreover have "fst (upsertArticles year_date 9 ''f'' ''F'' [dated_item, fresh_item] stale_db) = None"
    by (rule stale_call)
  ultimately show ?thesis
    using wf_stale_db h2 h3 h4 all unfolding D_def [symmetric] loop val by simp
qed

subsection \<open>Idempotent upsert\<close>

text \<open>
  Claim C7, as it is stated, fails: upserting an entry does not always leave one stored
  article with its id.  In \<open>big_db\<close> the feed holds 500 unstarred articles, all newer than
  the entry \<open>old_item\<close>; each upsert of \<open>old_item\<close> inserts its row and the pruning step of
  the same call deletes it again, so that after one call, and after a second, the store
  is \<open>big_db\<close> and holds no article with the derived id.
\<close>

theorem upsert_exactly_one_counterexample:
  "wf_db big_db \<and>
   upsertArticles no_date 9 ''f'' ''F'' [old_item] big_db = (None, big_db) \<and>
   upsertArticles no_date 10 ''f'' ''F'' [old_item] big_db = (None, big_db) \<and>
   article_id ''f'' old_item \<notin> article_ids big_db"
proof -
  have "article_id ''f'' old_item \<notin> article_ids big_db"
    by (auto simp: article_ids_def big_db_def article_id_def old_item_def)
  then show ?thesis using wf_big_db old_call_big by simp
qed

text \<open>
  Claim C7, amended.  The id of an entry is \<open>feedUrl\<close>, \<open>::\<close> and the entry's link, or its
  title when the link is empty.  After a successful call of \<open>upsertArticles\<close> on a store
  that satisfies the schema, the store satisfies the schema again and holds at most one
  article with the id of any entry of the list.  A stored row with this id has the
  \<open>fetched_at\<close> of this call, and the \<open>is_read\<close> and \<open>is_starred\<close> of the article that had
  this id before the call, if there was one.  The store holds exactly one such article
  unless the pruning step of the same call has deleted it, and it has deleted it exactly
  when the id is not among the 500 that the inner \<^verbatim>\<open>SELECT\<close> of the pruning step returns
  and the article was not stored before as a starred article or as an article of another
  feed.  So, for the row \<open>r1\<close> that has this id when the loop ends: the article is stored
  whenever at most 500 unstarred rows of the feed (\<open>r1\<close> among them) are at least as new
  as \<open>r1\<close>, and it is not stored whenever \<open>r1\<close> is an unstarred row of the feed and 500
  such rows are strictly newer.
\<close>

theorem upsertArticles_dedup:
  assumes "wf_db d" and "it \<in> set items"
    and "upsertArticles getTime now feedUrl feedName items d = (None, d')"
  shows "article_id feedUrl it = feedUrl @ ''::'' @ (if i_link it \<noteq> [] then i_link it else i_title it) \<and>
         wf_db d' \<and>
         length (filter (\<lambda>r. r_id r = article_id feedUrl it) (articles d')) \<le> 1 \<and>
         (\<forall>r' \<in> set (articles d'). r_id r' = article_id feedUrl it \<longrightarrow>
            r_fetched_at r' = now \<and>
            (\<forall>r \<in> set (articles d). r_id r = r_id r' \<longrightarrow>
               r_is_read r' = r_is_read r \<and> r_is_starred r' = r_is_starred r)) \<and>
         (length (filter (\<lambda>r. r_id r = article_id feedUrl it) (articles d')) = 1 \<longleftrightarrow>
            article_id feedUrl it \<in> set (newest_ids feedUrl 500
               (articles (snd (upsert_items getTime now feedUrl feedName items d)))) \<or>
            (\<exists>r \<in> set (articles d). r_id r = article_id feedUrl it \<and>
               (r_is_starred r \<noteq> 0 \<or> r_feed_url r \<noteq> feedUrl))) \<and>
         (\<exists>r1 \<in> set (articles (snd (upsert_items getTime now feedUrl feedName items d))).
            r_id r1 = article_id feedUrl it \<and>
            (length (not_older feedUrl r1
                (articles (snd (upsert_items getTime now feedUrl feedName items d)))) \<le> 500
             \<longrightarrow> length (filter (\<lambda>r. r_id r = article_id feedUrl it) (articles d')) = 1) \<and>
            (prunable feedUrl r1 \<and>
             500 \<le> length (newer feedUrl r1
                (articles (snd (upsert_items getTime now feedUrl feedName items d))))
             \<longrightarrow> length (filter (\<lambda>r. r_id r = article_id feedUrl it) (articles d')) = 0))"
proof -
  let ?i = "article_id feedUrl it"
  from assms(3) obtain d1 where
    d1: "upsert_items getTime now feedUrl feedName items d = (None, d1)"
        "d' = delete_beyond_limit feedUrl 500 d1"
    by (auto simp: upsertArticles_None)
  have wf1: "wf_db d1" by (rule wf_upsert_items_ok [OF assms(1) d1(1)])
  then have dist1: "distinct (map r_id (articles d1))" by (simp add: wf_db_def)
  have wf': "wf_db d'" by (rule wf_upsertArticles [OF assms(1,3)])
  then have dist': "distinct (map r_id (articles d'))" by (simp add: wf_db_def)
  from assms(1) have dist: "distinct (map r_id (articles d))" by (simp add: wf_db_def)
  have cnt: "length (filter (\<lambda>r. r_id r = ?i) (articles d')) = (if ?i \<in> article_ids d' then 1 else 0)"
    using id_count [OF dist'] by (simp add: article_ids_def)
  from upsert_items_ok [OF d1(1)] obtain new where
    n: "articles d1 = map (refreshed getTime now feedUrl feedName items) (articles d) @ new"
       "\<forall>x \<in> set new. r_feed_url x = feedUrl \<and> r_id x \<notin> article_ids d \<and>
           r_is_starred x = default_is_starred \<and> r_fetched_at x = now"
    by blast
  have fresh: "\<forall>r' \<in> set (articles d'). r_id r' = ?i \<longrightarrow>
            r_fetched_at r' = now \<and>
            (\<forall>r \<in> set (articles d). r_id r = r_id r' \<longrightarrow>
               r_is_read r' = r_is_read r \<and> r_is_starred r' = r_is_starred r)"
  proof (intro ballI impI)
    fix r' assume r': "r' \<in> set (articles d')" "r_id r' = ?i"
    then have "r' \<in> set (articles d1)" unfolding d1(2) using prune_subset by blast
    then consider r0 where "r0 \<in> set (articles d)" "r' = refreshed getTime now feedUrl feedName items r0"
      | "r' \<in> set new"
      unfolding n(1) by auto
    then show "r_fetched_at r' = now \<and>
            (\<forall>r \<in> set (articles d). r_id r = r_id r' \<longrightarrow>
               r_is_read r' = r_is_read r \<and> r_is_starred r' = r_is_starred r)"
    proof cases
      case 1
      from r'(2) 1(2) have "r_id r0 = ?i" by simp
      with assms(2) have "r_id r0 \<in> article_id feedUrl ` set items" by (metis imageI)
      then have "last_entry feedUrl items (r_id r0) \<noteq> None"
        by (simp add: last_entry_None)
      then obtain e where "last_entry feedUrl items (r_id r0) = Some e" by auto
      then have "r_fetched_at r' = now" unfolding 1(2) by (simp add: refreshed_Some)
      moreover have "\<forall>r \<in> set (articles d). r_id r = r_id r' \<longrightarrow>
               r_is_read r' = r_is_read r \<and> r_is_starred r' = r_is_starred r"
      proof (intro ballI impI)
        fix r assume "r \<in> set (articles d)" "r_id r = r_id r'"
        with 1 have "r = r0" using same_id_same_row [OF dist] by simp
        then show "r_is_read r' = r_is_read r \<and> r_is_starred r' = r_is_starred r"
          unfolding 1(2) by simp
      qed
      ultimately show ?thesis by simp
    next
      case 2
      with n(2) have nid: "r_id r' \<notin> article_ids d" and "r_fetched_at r' = now" by auto
      moreover from nid have "\<forall>r \<in> set (articles d). r_id r \<noteq> r_id r'"
        unfolding article_ids_def set_map by (metis imageI)
      ultimately show ?thesis by simp
    qed
  qed
  have "?i \<in> article_ids d1" using upsert_items_ids [OF d1(1)] assms(2) by auto
  then obtain r1 where r1: "r1 \<in> set (articles d1)" "r_id r1 = ?i"
    by (auto simp: article_ids_def)
  have one: "length (filter (\<lambda>r. r_id r = ?i) (articles d')) = 1 \<longleftrightarrow> r1 \<in> set (articles d')"
    using cnt prune_id_kept [OF dist1 r1(1), of feedUrl 500] r1(2) unfolding d1(2) by auto
  have none: "length (filter (\<lambda>r. r_id r = ?i) (articles d')) = 0 \<longleftrightarrow> r1 \<notin> set (articles d')"
    using cnt prune_id_kept [OF dist1 r1(1), of feedUrl 500] r1(2) unfolding d1(2) by auto
  have np: "\<not> prunable feedUrl r1 \<longleftrightarrow>
      (\<exists>r \<in> set (articles d). r_id r = ?i \<and> (r_is_starred r \<noteq> 0 \<or> r_feed_url r \<noteq> feedUrl))"
  proof (cases "r1 \<in> set new")
    case True
    with n(2) have "prunable feedUrl r1" "r_id r1 \<notin> article_ids d"
      by (auto simp: prunable_def default_is_starred_def)
    moreover from this(2) r1(2) have "\<forall>r \<in> set (articles d). r_id r \<noteq> ?i"
      unfolding article_ids_def set_map by (metis imageI)
    ultimately show ?thesis by blast
  next
    case False
    with r1(1) obtain r0 where r0: "r0 \<in> set (articles d)"
        "r1 = refreshed getTime now feedUrl feedName items r0"
      unfolding n(1) by auto
    then have id0: "r_id r0 = ?i" using r1(2) by simp
    have "(\<exists>r \<in> set (articles d). r_id r = ?i \<and> (r_is_starred r \<noteq> 0 \<or> r_feed_url r \<noteq> feedUrl))
        \<longleftrightarrow> (r_is_starred r0 \<noteq> 0 \<or> r_feed_url r0 \<noteq> feedUrl)"
      using same_id_same_row [OF dist _ r0(1)] r0(1) id0 by metis
    then show ?thesis unfolding r0(2) by (simp add: prunable_def)
  qed
  have exact: "length (filter (\<lambda>r. r_id r = ?i) (articles d')) = 1 \<longleftrightarrow>
            ?i \<in> set (newest_ids feedUrl 500 (articles d1)) \<or>
            (\<exists>r \<in> set (articles d). r_id r = ?i \<and> (r_is_starred r \<noteq> 0 \<or> r_feed_url r \<noteq> feedUrl))"
    using one prune_kept_iff [OF r1(1), of feedUrl 500] np r1(2) unfolding d1(2) by metis
  have enough: "length (filter (\<lambda>r. r_id r = ?i) (articles d')) = 1"
    if "length (not_older feedUrl r1 (articles d1)) \<le> 500"
  proof (cases "prunable feedUrl r1")
    case True
    from that have "r1 \<in> set (articles d')"
      unfolding d1(2) not_older_key by (intro prune_keeps_new_enough [OF dist1 r1(1) True])
    then show ?thesis using one by blast
  next
    case False
    with r1(1) have "r1 \<in> set (articles d')" unfolding d1(2) by (intro prune_keeps_others)
    then show ?thesis using one by blast
  qed
  have gone: "length (filter (\<lambda>r. r_id r = ?i) (articles d')) = 0"
    if "prunable feedUrl r1 \<and> 500 \<le> length (newer feedUrl r1 (articles d1))"
  proof -
    from that have "500 \<le> length (filter (\<lambda>s. prunable feedUrl s \<and> order_key s < order_key r1) (articles d1))"
      by (simp add: newer_key)
    from prune_deletes [OF dist1 r1(1) _ this] that
    have "r1 \<notin> set (articles d')" unfolding d1(2) prune_id_kept [OF dist1 r1(1)] by simp
    then show ?thesis using none by blast
  qed
  have last: "\<exists>r1 \<in> set (articles d1). r_id r1 = ?i \<and>
            (length (not_older feedUrl r1 (articles d1)) \<le> 500
             \<longrightarrow> length (filter (\<lambda>r. r_id r = ?i) (articles d')) = 1) \<and>
            (prunable feedUrl r1 \<and> 500 \<le> length (newer feedUrl r1 (articles d1))
             \<longrightarrow> length (filter (\<lambda>r. r_id r = ?i) (articles d')) = 0)"
    using r1 enough gone by blast
  have "?i = feedUrl @ ''::'' @ (if i_link it \<noteq> [] then i_link it else i_title it)"
    by (simp add: article_id_def)
  moreover from cnt have "length (filter (\<lambda>r. r_id r = ?i) (articles d')) \<le> 1" by simp
  ultimately show ?thesis
    using wf' fresh exact last unfolding d1(1) snd_conv by blast
qed

theorem upsertArticles_dedup_witness:
  "wf_db stale_db \<and> fresh_item \<in> set [old_item, fresh_item] \<and>
   fst (upsertArticles year_date 9 ''f'' ''F'' [old_item, fresh_item] stale_db) = None \<and>
   article_id ''f'' fresh_item = ''f::y'' \<and>
   length (filter (prunable ''f'')
     (articles (snd (upsert_items year_date 9 ''f'' ''F'' [old_item, fresh_item] stale_db)))) = 501 \<and>
   length (filter (\<lambda>r. r_id r = ''f::y'')
     (articles (snd (upsertArticles year_date 9 ''f'' ''F'' [old_item, fresh_item] stale_db)))) = 1 \<and>
   wf_db (snd (upsertArticles year_date 9 ''f'' ''F'' [old_item, fresh_item] stale_db))"
proof -
  define D where "D = snd (upsertArticles year_date 9 ''f'' ''F'' [old_item, fresh_item] stale_db)"
  define r1 where "r1 = do_update_set (item_row year_date 9 ''f'' ''F'' old_item) stale_row"
  define r2 where "r2 = (item_row year_date 9 ''f'' ''F'' fresh_item)
           \<lparr>r_is_read := default_is_read, r_is_starred := default_is_starred\<rparr>"
  define d1 where "d1 = stale_db\<lparr>articles := r1 # map big_row [0..<499] @ [r2]\<rparr>"
  have call: "upsertArticles year_date 9 ''f'' ''F'' [old_item, fresh_item] stale_db = (None, D)"
    unfolding D_def using stale_call [of "[old_item, fresh_item]"]
    by (metis prod.collapse)
  have loop: "upsert_items year_date 9 ''f'' ''F'' [old_item, fresh_item] stale_db = (None, d1)"
    unfolding d1_def r1_def r2_def
    by (rule stale_loop) (simp add: article_id_def old_item_def)
  have h2: "fresh_item \<in> set [old_item, fresh_item]" by simp
  have i: "article_id ''f'' fresh_item = ''f::y''"
    by (simp add: article_id_def fresh_item_def)
  have k1: "r_id r1 = ''f::x''" "order_key r1 = (0, -9)" "prunable ''f'' r1"
    by (simp_all add: r1_def stale_row_def ex_row_def prunable_def order_key_def item_row_def
        do_update_set_def publishedTs_def old_item_def)
  have k2: "r_id r2 = ''f::y''" "order_key r2 = (-1704067200000, -9)" "prunable ''f'' r2"
    by (simp_all add: r2_def prunable_def order_key_def item_row_def article_id_def
        publishedTs_def fresh_item_def year_date_def default_is_starred_def)
  have kb: "order_key (big_row k) = (- (int k + 1), - 5)" "prunable ''f'' (big_row k)"
      "r_id (big_row k) \<noteq> ''f::y''" for k
    by (simp_all add: order_key_def big_row_def ex_row_def prunable_def)
  have all: "length (filter (prunable ''f'') (articles d1)) = 501"
    by (simp add: d1_def k1 k2 kb)
  have few: "length (not_older ''f'' r2 (articles d1)) \<le> 500"
    unfolding not_older_key
    by (simp add: d1_def k1 k2 kb less_eq_prod_def filter_empty_conv)
  from upsertArticles_dedup [OF wf_stale_db h2 call] obtain r where
    r: "r \<in> set (articles d1)" "r_id r = ''f::y''"
       "length (not_older ''f'' r (articles d1)) \<le> 500 \<longrightarrow>
          length (filter (\<lambda>r. r_id r = ''f::y'') (articles D)) = 1"
    and wfD: "wf_db D"
    unfolding loop snd_conv i by blast
  from r(1,2) have "r = r2" by (auto simp: d1_def k1 kb)
  with r(3) few have "length (filter (\<lambda>r. r_id r = ''f::y'') (articles D)) = 1" by simp
  moreover have "fst (upsertArticles year_date 9 ''f'' ''F'' [old_item, fresh_item] stale_db) = None"
    by (rule stale_call)
  ultimately show ?thesis
    using wf_stale_db h2 i all wfD unfolding D_def [symmetric] loop by simp
qed

subsection \<open>Other feeds\<close>

text \<open>
  The pruning step and the loop leave alone every article of another feed whose id is not
  the derived id of an entry of the call: these rows are the same, in the same order,
  before and after, whether the call succeeds or not.
\<close>

lemma upsertArticles_frame_other_feeds:
  assumes "upsertArticles g now u n its d = (res, d')"
  shows "filter (\<lambda>r. r_feed_url r \<noteq> u \<and> r_id r \<notin> article_id u ` set its) (articles d') =
         filter (\<lambda>r. r_feed_url r \<noteq> u \<and> r_id r \<notin> article_id u ` set its) (articles d)"
proof (cases res)
  case None
  with assms obtain d1 where
    d1: "upsert_items g now u n its d = (None, d1)" "d' = delete_beyond_limit u 500 d1"
    by (auto simp: upsertArticles_None)
  have "filter (\<lambda>r. r_feed_url r \<noteq> u \<and> r_id r \<notin> article_id u ` set its) (articles d') =
        filter (\<lambda>r. r_feed_url r \<noteq> u \<and> r_id r \<notin> article_id u ` set its) (articles d1)"
    unfolding d1(2) by (auto simp: delete_beyond_limit_def prunable_def intro!: filter_cong)
  with upsert_items_frame [OF d1(1)] show ?thesis by simp
next
  case (Some e)
  with assms have "upsert_items g now u n its d = (Some e, d')"
    by (simp add: upsertArticles_Some)
  then show ?thesis by (rule upsert_items_frame)
qed

text \<open>
  Claim C4 says that a call changes no article of another feed.  An article of another
  feed whose id is the derived id of an entry is overwritten: the statement's conflict
  target is the id alone, and the derived id does not determine the feed.  In \<open>bug_db\<close> the article \<open>http://h/a::b::c\<close>
  belongs to the feed \<open>http://h/a\<close>; a refresh of the feed \<open>http://h/a::b\<close> with an entry
  whose link is \<open>c\<close> replaces its title, content, author, feed name and timestamps.
\<close>

theorem upsertArticles_other_feed_overwritten:
  "wf_db bug_db \<and>
   ex_row ''http://h/a::b::c'' ''http://h/a'' 10 100 1 0 \<in> set (articles bug_db) \<and>
   upsertArticles no_date 200 ''http://h/a::b'' ''B'' [bug_item] bug_db =
     (None, bug_db\<lparr>articles :=
        [\<lparr>r_id = ''http://h/a::b::c'', r_feed_url = ''http://h/a'', r_feed_name = ''B'',
          r_title = ''Other'', r_link = ''c'', r_published = [], r_published_ts = 0,
          r_content = ''other'', r_author = ''z'', r_is_read = 1, r_is_starred = 0,
          r_fetched_at = 200\<rparr>]\<rparr>)"
  by (simp add: upsertArticles_def upsert_article_def item_row_def article_id_def bug_item_def
      bug_db_def ex_row_def ex_feed_def article_ids_def feed_urls_def do_update_set_def
      publishedTs_def delete_beyond_limit_def newest_ids_def prunable_def order_by_ts_desc_def
      wf_db_def)

subsection \<open>The legacy import\<close>

lemma migrated_set_marker: "migrated (set_marker d)"
  by (simp add: migrated_def set_marker_def filter_empty_conv [THEN iffD2])

lemma wf_set_marker: "wf_db d \<Longrightarrow> wf_db (set_marker d)"
  by (auto simp: wf_db_def set_marker_def distinct_map_filter feed_urls_def)

lemma wf_insert_feed: "wf_db d \<Longrightarrow> wf_db (insert_or_ignore_feed f d)"
  by (auto simp: wf_db_def insert_or_ignore_feed_def feed_urls_def list_all_iff)

lemma wf_insert_article:
  "wf_db d \<Longrightarrow> insert_or_ignore_article r d = Inr d' \<Longrightarrow> wf_db d'"
  by (auto simp: wf_db_def insert_or_ignore_article_def feed_urls_def article_ids_def
      list_all_iff split: if_splits)

lemma exec_step:
  assumes "wf_db d" and "exec s d = Inr d'"
  shows "wf_db d' \<and> prefix (feeds d) (feeds d') \<and> prefix (articles d) (articles d') \<and>
         (migrated d \<longrightarrow> migrated d')"
proof (cases s)
  case (InsertFeed f)
  with assms show ?thesis
    using wf_insert_feed [of d f]
    by (auto simp: insert_or_ignore_feed_def migrated_def)
next
  case (InsertArticle r)
  with assms show ?thesis
    using wf_insert_article [of d r d']
    by (auto simp: insert_or_ignore_article_def migrated_def split: if_splits)
next
  case SetMarker
  with assms show ?thesis
    using wf_set_marker [of d] migrated_set_marker [of d]
    by (auto simp: set_marker_def)
qed

lemma exec_all_steps:
  assumes "wf_db d" and "exec_all ss d = (res, d')"
  shows "wf_db d' \<and> prefix (feeds d) (feeds d') \<and> prefix (articles d) (articles d') \<and>
         (migrated d \<longrightarrow> migrated d')"
  using assms
proof (induction ss arbitrary: d)
  case Nil
  then show ?case by simp
next
  case (Cons s ss)
  show ?case
  proof (cases "exec s d")
    case (Inl e)
    with Cons.prems show ?thesis by simp
  next
    case (Inr dm)
    with Cons.prems have run: "exec_all ss dm = (res, d')" by simp
    from exec_step [OF Cons.prems(1) Inr] Cons.IH [OF _ run]
    show ?thesis by (meson prefix_order.trans)
  qed
qed

lemma exec_all_marker:
  "exec_all (ss @ [SetMarker]) d = (None, d') \<Longrightarrow> migrated d'"
proof (induction ss arbitrary: d)
  case Nil
  then show ?case using migrated_set_marker by auto
next
  case (Cons s ss)
  then show ?case by (cases "exec s d") auto
qed

lemma import_stmts_marker:
  "\<exists>ss. import_stmts g c n ls = ss @ [SetMarker]"
  by (metis append.assoc import_stmts_def)

lemma import_complete:
  assumes "wf_db d" and "importFromLocalStorageIfNeeded g c n (d, ls) = (res, d', ls')"
  shows "wf_db d' \<and> prefix (feeds d) (feeds d') \<and> prefix (articles d) (articles d') \<and>
         (res = None \<longrightarrow> migrated d')"
proof (cases "migrated d")
  case True
  with assms show ?thesis by (auto simp: importFromLocalStorageIfNeeded_def)
next
  case False
  show ?thesis
  proof (cases "hasData ls")
    case no: False
    with False assms have "d' = set_marker d" "res = None"
      by (auto simp: importFromLocalStorageIfNeeded_def)
    then show ?thesis
      using wf_set_marker [OF assms(1)] migrated_set_marker [of d] by (simp add: set_marker_def)
  next
    case yes: True
    obtain r1 d1 where run: "exec_all (import_stmts g c n ls) d = (r1, d1)" by force
    with False yes assms(2) have eq: "d' = d1" "res = r1"
      by (auto simp: importFromLocalStorageIfNeeded_def split: option.splits)
    from import_stmts_marker obtain ss where ss: "import_stmts g c n ls = ss @ [SetMarker]" by blast
    have "res = None \<longrightarrow> migrated d'"
      using run exec_all_marker [of ss d d'] unfolding ss eq by auto
    with exec_all_steps [OF assms(1) run] eq show ?thesis by simp
  qed
qed

lemma import_noop: "migrated d \<Longrightarrow> importFromLocalStorageIfNeeded g c n (d, ls) = (None, d, ls)"
  by (simp add: importFromLocalStorageIfNeeded_def)

lemma import_interrupted_steps:
  assumes "wf_db d" and "import_interrupted k g c n (d, ls) = (d1, ls1)"
  shows "wf_db d1 \<and> prefix (feeds d) (feeds d1) \<and> prefix (articles d) (articles d1) \<and> ls1 = ls"
proof -
  have step: "wf_db (snd (exec_all ss d)) \<and> prefix (feeds d) (feeds (snd (exec_all ss d))) \<and>
              prefix (articles d) (articles (snd (exec_all ss d)))" for ss
    using exec_all_steps [OF assms(1), of ss "fst (exec_all ss d)" "snd (exec_all ss d)"] by simp
  from assms show ?thesis
    using step [of "take k [SetMarker]"] step [of "take k (import_stmts g c n ls)"]
    by (auto simp: import_interrupted_def split: if_splits)
qed

lemma legacy_result_eq:
  "legacy_result =
     (None,
      \<lparr>feeds = feeds ex_db @ [\<lparr>f_url = ''fc'', f_name = ''C'', f_added_at = Some 1704067200000\<rparr>],
       articles = articles ex_db @
         [\<lparr>r_id = ''fc::9'', r_feed_url = ''fc'', r_feed_name = ''C'', r_title = ''Nine'',
           r_link = ''9'', r_published = ''2024'', r_published_ts = 1704067200000,
           r_content = ''c'', r_author = ''w'', r_is_read = 1, r_is_starred = 0,
           r_fetched_at = 8\<rparr>],
       meta = [(marker_key, ''1'')]\<rparr>,
      remove_legacy legacy_ls)"
  by (simp add: legacy_result_def importFromLocalStorageIfNeeded_def import_interrupted_def
      import_stmts_def legacy_ls_def hasData_def migrated_def ex_db_def ex_feed_def ex_row_def
      insert_or_ignore_feed_def insert_or_ignore_article_def set_marker_def feed_urls_def
      article_ids_def legacy_feed_row_def legacy_article_row_def legacy_flag_def publishedTs_def
      year_date_def marker_key_def enumerate_eq_zip remove_legacy_def)

text \<open>
  Claim C5.  Take a store that satisfies the schema.  A run of the import that is cut off
  after any number \<open>k\<close> of committed statements, followed by a full run on what it left,
  and a single full run, both end in a store that satisfies the schema (no two feeds with
  one url, no two articles with one id) and of which the feed and article rows of the
  store before are a prefix, unchanged (rows are only appended).  A run that completes
  without error has set the marker, and with the marker set the function returns the
  store and the local storage as they are.
\<close>

theorem import_idempotent:
  assumes "wf_db d"
  shows
   "(case import_interrupted k g1 c1 n1 (d, ls) of (d1, ls1) \<Rightarrow>
       case importFromLocalStorageIfNeeded g2 c2 n2 (d1, ls1) of (res, d2, ls2) \<Rightarrow>
         ls1 = ls \<and> wf_db d1 \<and> wf_db d2 \<and>
         prefix (feeds d) (feeds d1) \<and> prefix (feeds d1) (feeds d2) \<and>
         prefix (articles d) (articles d1) \<and> prefix (articles d1) (articles d2) \<and>
         (res = None \<longrightarrow> migrated d2)) \<and>
    (case importFromLocalStorageIfNeeded g1 c1 n1 (d, ls) of (res, d1, ls1) \<Rightarrow>
       wf_db d1 \<and> prefix (feeds d) (feeds d1) \<and> prefix (articles d) (articles d1) \<and>
       (res = None \<longrightarrow>
          migrated d1 \<and> importFromLocalStorageIfNeeded g2 c2 n2 (d1, ls1) = (None, d1, ls1))) \<and>
    (migrated d \<longrightarrow> importFromLocalStorageIfNeeded g1 c1 n1 (d, ls) = (None, d, ls))"
proof (intro conjI)
  obtain d1 ls1 where i: "import_interrupted k g1 c1 n1 (d, ls) = (d1, ls1)" by force
  obtain res d2 ls2 where c: "importFromLocalStorageIfNeeded g2 c2 n2 (d1, ls1) = (res, d2, ls2)"
    by (metis prod_cases3)
  from import_interrupted_steps [OF assms i] have s1: "wf_db d1" "prefix (feeds d) (feeds d1)"
    "prefix (articles d) (articles d1)" "ls1 = ls" by auto
  from c s1(4) have c': "importFromLocalStorageIfNeeded g2 c2 n2 (d1, ls) = (res, d2, ls2)" by simp
  from import_complete [OF s1(1) c] s1
  show "case import_interrupted k g1 c1 n1 (d, ls) of (d1, ls1) \<Rightarrow>
       case importFromLocalStorageIfNeeded g2 c2 n2 (d1, ls1) of (res, d2, ls2) \<Rightarrow>
         ls1 = ls \<and> wf_db d1 \<and> wf_db d2 \<and>
         prefix (feeds d) (feeds d1) \<and> prefix (feeds d1) (feeds d2) \<and>
         prefix (articles d) (articles d1) \<and> prefix (articles d1) (articles d2) \<and>
         (res = None \<longrightarrow> migrated d2)"
    by (simp add: i c')
next
  obtain res d1 ls1 where c: "importFromLocalStorageIfNeeded g1 c1 n1 (d, ls) = (res, d1, ls1)"
    by (metis prod_cases3)
  from import_complete [OF assms c] import_noop [of d1 g2 c2 n2 ls1]
  show "case importFromLocalStorageIfNeeded g1 c1 n1 (d, ls) of (res, d1, ls1) \<Rightarrow>
       wf_db d1 \<and> prefix (feeds d) (feeds d1) \<and> prefix (articles d) (articles d1) \<and>
       (res = None \<longrightarrow>
          migrated d1 \<and> importFromLocalStorageIfNeeded g2 c2 n2 (d1, ls1) = (None, d1, ls1))"
    by (simp add: c)
next
  show "migrated d \<longrightarrow> importFromLocalStorageIfNeeded g1 c1 n1 (d, ls) = (None, d, ls)"
    by (simp add: import_noop)
qed

theorem import_idempotent_witness:
  "wf_db ex_db \<and>
   legacy_result =
     (None,
      \<lparr>feeds = feeds ex_db @ [\<lparr>f_url = ''fc'', f_name = ''C'', f_added_at = Some 1704067200000\<rparr>],
       articles = articles ex_db @
         [\<lparr>r_id = ''fc::9'', r_feed_url = ''fc'', r_feed_name = ''C'', r_title = ''Nine'',
           r_link = ''9'', r_published = ''2024'', r_published_ts = 1704067200000,
           r_content = ''c'', r_author = ''w'', r_is_read = 1, r_is_starred = 0,
           r_fetched_at = 8\<rparr>],
       meta = [(marker_key, ''1'')]\<rparr>,
      remove_legacy legacy_ls) \<and>
   wf_db (fst (snd legacy_result)) \<and>
   migrated (fst (snd legacy_result)) \<and>
   importFromLocalStorageIfNeeded year_date iso_clock 9 (snd legacy_result) =
     (None, snd legacy_result)"
proof -
  obtain d1 ls1 where i: "import_interrupted 3 year_date iso_clock 7 (ex_db, legacy_ls) = (d1, ls1)"
    by force
  obtain res d2 ls2 where c: "importFromLocalStorageIfNeeded year_date iso_clock 8 (d1, ls1) = (res, d2, ls2)"
    by (metis prod_cases3)
  have r: "legacy_result = (res, d2, ls2)" by (simp add: legacy_result_def i c)
  with legacy_result_eq have "res = None" by (metis fst_conv)
  with import_idempotent [OF wf_ex_db, where k = 3 and ?g1.0 = year_date and ?c1.0 = iso_clock
      and ?n1.0 = 7 and ls = legacy_ls and ?g2.0 = year_date and ?c2.0 = iso_clock and ?n2.0 = 8]
  have "wf_db d2 \<and> migrated d2" by (simp add: i c)
  then have "wf_db (fst (snd legacy_result))" "migrated (fst (snd legacy_result))"
    by (simp_all add: r)
  moreover from this(2)
  have "importFromLocalStorageIfNeeded year_date iso_clock 9 (snd legacy_result) = (None, snd legacy_result)"
    by (simp add: r importFromLocalStorageIfNeeded_def)
  ultimately show ?thesis using wf_ex_db legacy_result_eq by blast
qed

subsection \<open>The write lock\<close>

text \<open>The bodies of \<^verbatim>\<open>upsertArticles\<close> and of the import, run statement by statement, are the
  functions of the store section.\<close>

lemma upsert_items_run:
  "upsert_items g now u n its d = run (map (\<lambda>it. upsert_article (item_row g now u n it)) its) d"
  by (induction its arbitrary: d) (simp_all split: sum.splits)

lemma run_append:
  "run (xs @ ys) d = (case run xs d of (Some e, d') \<Rightarrow> (Some e, d') | (None, d') \<Rightarrow> run ys d')"
  by (induction xs arbitrary: d) (simp_all split: sum.splits)

lemma upsertArticles_run:
  "upsertArticles g now u n its d = run (upsertArticles_body g now u n its) d"
  by (simp add: upsertArticles_def upsertArticles_body_def run_append upsert_items_run
      split: prod.splits option.splits)

lemma exec_all_run: "exec_all ss d = run (import_body ss) d"
  by (induction ss arbitrary: d) (simp_all add: import_body_def split: sum.splits)

text \<open>The lock that a call finds is fulfilled exactly when every earlier call has settled,
  and it is never rejected.\<close>

lemma lock_after_Resolved:
  "lock_after Resolved ph = (case ph of Settled r \<Rightarrow> Resolved | Queued \<Rightarrow> Pending | Running rest \<Rightarrow> Pending)"
  by (simp add: lock_after_def next_promise_def then_call_def catch_rethrow_def catch_ignore_def
      fn_promise_def split: phase.splits option.splits)

lemma lock_after_Pending: "lock_after Pending ph = Pending"
  by (simp add: lock_after_def next_promise_def then_call_def catch_rethrow_def catch_ignore_def)

lemma lock_before_Pending: "lock_before Pending ts i = Pending"
  by (induction Pending ts i rule: lock_before.induct) (simp_all add: lock_after_Pending)

lemma lock_before_Resolved:
  "i < length ts \<Longrightarrow>
     lock_before Resolved ts i = (if \<forall>j<i. settled (ts ! j) then Resolved else Pending)"
proof (induction ts arbitrary: i)
  case Nil
  then show ?case by simp
next
  case (Cons t ts)
  show ?case
  proof (cases i)
    case 0
    then show ?thesis by simp
  next
    case (Suc k)
    with Cons.prems have k: "k < length ts" by simp
    show ?thesis
    proof (cases "settled t")
      case True
      then have "lock_after Resolved (phase t) = Resolved"
        by (simp add: lock_after_Resolved settled_def split: phase.splits)
      moreover have "(\<forall>j<Suc k. settled ((t # ts) ! j)) = (\<forall>j<k. settled (ts ! j))"
        using True by (auto simp: less_Suc_eq_0_disj)
      ultimately show ?thesis using Suc Cons.IH [OF k] by simp
    next
      case False
      then have "lock_after Resolved (phase t) = Pending"
        by (simp add: lock_after_Resolved settled_def split: phase.splits)
      moreover have "\<not> (\<forall>j<Suc k. settled ((t # ts) ! j))"
        using False by auto
      ultimately show ?thesis using Suc by (simp add: lock_before_Pending)
    qed
  qed
qed

lemma all_queued_serial: "list_all (\<lambda>t. phase t = Queued) ts \<Longrightarrow> serial d ts d"
  by (cases ts) simp_all

lemma serial_submit:
  "serial d ts st \<Longrightarrow> serial d (ts @ [\<lparr>body = fn, phase = Queued\<rparr>]) st"
  by (induction ts arbitrary: d) (auto split: phase.splits)

lemma serial_start:
  assumes "serial d ts st" and "i < length ts" and "phase (ts ! i) = Queued"
    and "\<forall>j<i. settled (ts ! j)"
  shows "serial d (set_phase i (Running (body (ts ! i))) ts) st"
  using assms
proof (induction ts arbitrary: d i)
  case Nil
  then show ?case by simp
next
  case (Cons t ts)
  show ?case
  proof (cases i)
    case 0
    with Cons.prems show ?thesis by (simp add: set_phase_def)
  next
    case (Suc k)
    with Cons.prems(4) have "settled t" by auto
    then obtain r where r: "phase t = Settled r" by (auto simp: settled_def split: phase.splits)
    from Cons.prems Suc have "\<forall>j<k. settled (ts ! j)" by auto
    with Cons.prems Suc r Cons.IH [of "snd (run (body t) d)" k]
    show ?thesis by (simp add: set_phase_def)
  qed
qed

lemma serial_running_head:
  assumes "serial d (t # ts) st" and "Suc k < Suc (length ts)" and "phase (ts ! k) = Running x"
  shows "\<exists>r. phase t = Settled r"
proof (cases "phase t")
  case (Settled r)
  then show ?thesis by simp
next
  case Queued
  with assms have "phase (ts ! k) = Queued" by (simp add: list_all_length)
  with assms(3) show ?thesis by simp
next
  case (Running y)
  with assms have "phase (ts ! k) = Queued" by (simp add: list_all_length)
  with assms(3) show ?thesis by simp
qed

lemma serial_exec_ok:
  assumes "serial d ts st" and "i < length ts" and "phase (ts ! i) = Running (s # rest)"
    and "s st = Inr st'"
  shows "serial d (set_phase i (Running rest) ts) st'"
  using assms
proof (induction ts arbitrary: d i)
  case Nil
  then show ?case by simp
next
  case (Cons t ts)
  show ?case
  proof (cases i)
    case 0
    with Cons.prems show ?thesis by (simp add: set_phase_def)
  next
    case (Suc k)
    with Cons.prems obtain r where r: "phase t = Settled r"
      using serial_running_head [of d t ts st k "s # rest"] by auto
    with Cons.prems Suc Cons.IH [of "snd (run (body t) d)" k]
    show ?thesis by (simp add: set_phase_def)
  qed
qed

lemma serial_exec_fail:
  assumes "serial d ts st" and "i < length ts" and "phase (ts ! i) = Running (s # rest)"
    and "s st = Inl e"
  shows "serial d (set_phase i (Settled (Some e)) ts) st"
  using assms
proof (induction ts arbitrary: d i)
  case Nil
  then show ?case by simp
next
  case (Cons t ts)
  show ?case
  proof (cases i)
    case 0
    with Cons.prems have "run (body t) d = (Some e, st)" "list_all (\<lambda>t'. phase t' = Queued) ts"
      by auto
    with 0 all_queued_serial [of ts st] show ?thesis by (simp add: set_phase_def)
  next
    case (Suc k)
    with Cons.prems obtain r where r: "phase t = Settled r"
      using serial_running_head [of d t ts st k "s # rest"] by auto
    with Cons.prems Suc Cons.IH [of "snd (run (body t) d)" k]
    show ?thesis by (simp add: set_phase_def)
  qed
qed

lemma serial_finish:
  assumes "serial d ts st" and "i < length ts" and "phase (ts ! i) = Running []"
  shows "serial d (set_phase i (Settled None) ts) st"
  using assms
proof (induction ts arbitrary: d i)
  case Nil
  then show ?case by simp
next
  case (Cons t ts)
  show ?case
  proof (cases i)
    case 0
    with Cons.prems have "run (body t) d = (None, st)" "list_all (\<lambda>t'. phase t' = Queued) ts"
      by auto
    with 0 all_queued_serial [of ts st] show ?thesis by (simp add: set_phase_def)
  next
    case (Suc k)
    with Cons.prems obtain r where r: "phase t = Settled r"
      using serial_running_head [of d t ts st k "[]"] by auto
    with Cons.prems Suc Cons.IH [of "snd (run (body t) d)" k]
    show ?thesis by (simp add: set_phase_def)
  qed
qed

lemma start_needs_settled:
  "i < length ts \<Longrightarrow> lock_before Resolved ts i = Resolved \<Longrightarrow> \<forall>j<i. settled (ts ! j)"
  by (simp add: lock_before_Resolved split: if_splits)

lemma step_serial:
  assumes "step s s'" and "serial d0 (tasks s) (store s)"
  shows "serial d0 (tasks s') (store s')"
  using assms
proof (induction rule: step.induct)
  case (submit s fn)
  then show ?case by (simp add: serial_submit)
next
  case (start i s)
  then show ?case using start_needs_settled [of i "tasks s"] by (simp add: serial_start)
next
  case (exec_ok i s st rest d')
  then show ?case by (simp add: serial_exec_ok)
next
  case (exec_fail i s st rest e)
  then show ?case by (simp add: serial_exec_fail)
next
  case (finish i s)
  then show ?case by (simp add: serial_finish)
qed

lemma reachable_serial: "reachable d0 s \<Longrightarrow> serial d0 (tasks s) (store s)"
  by (induction rule: reachable.induct) (simp_all add: init_def step_serial)

lemma serial_settled_prefix:
  assumes "serial d ts st" and "i < length ts" and "phase (ts ! i) \<noteq> Queued"
  shows "\<forall>j<i. settled (ts ! j)"
  using assms
proof (induction ts arbitrary: d i)
  case Nil
  then show ?case by simp
next
  case (Cons t ts)
  show ?case
  proof (cases i)
    case 0
    then show ?thesis by simp
  next
    case (Suc k)
    have "\<exists>r. phase t = Settled r"
    proof (cases "phase t")
      case (Settled r)
      then show ?thesis by simp
    next
      case Queued
      with Cons.prems Suc have "phase (ts ! k) = Queued" by (simp add: list_all_length)
      with Cons.prems Suc show ?thesis by simp
    next
      case (Running y)
      with Cons.prems Suc have "phase (ts ! k) = Queued" by (simp add: list_all_length)
      with Cons.prems Suc show ?thesis by simp
    qed
    then obtain r where r: "phase t = Settled r" by blast
    with Cons.prems Suc have "\<forall>j<k. settled (ts ! j)"
      using Cons.IH [of "snd (run (body t) d)" k] by simp
    moreover from r have "settled t" by (simp add: settled_def)
    ultimately show ?thesis using Suc by (auto simp: less_Suc_eq_0_disj)
  qed
qed

lemma running_is_front:
  assumes "serial d ts st" and "i < length ts" and "phase (ts ! i) = Running x"
    and "j < length ts" and "phase (ts ! j) \<noteq> Queued"
  shows "j \<le> i"
proof (rule ccontr)
  assume "\<not> j \<le> i"
  then have "i < j" by simp
  with serial_settled_prefix [OF assms(1,4,5)] have "settled (ts ! i)" by simp
  with assms(3) show False by (simp add: settled_def)
qed

lemma set_phase_simps [simp]:
  "length (set_phase i ph ts) = length ts"
  "i < length ts \<Longrightarrow> phase (set_phase i ph ts ! i) = ph"
  "j \<noteq> i \<Longrightarrow> set_phase i ph ts ! j = ts ! j"
  by (simp_all add: set_phase_def)

lemma step_traced:
  assumes "step s s'" and "serial d0 (tasks s) (store s)" and "traced s"
  shows "traced s'"
  using assms
proof (induction rule: step.induct)
  case (submit s fn)
  then show ?case by (auto simp: traced_def list_all_iff nth_append)
next
  case (start i s)
  then show ?case
    by (auto simp: traced_def list_all_iff) (metis phase.distinct(1) set_phase_simps(2,3))
next
  case (exec_ok i s st rest d')
  have "\<forall>j \<in> set (trace s). j \<le> i"
    using exec_ok running_is_front [of d0 "tasks s" "store s" i "st # rest"]
    by (auto simp: traced_def list_all_iff)
  moreover have "\<forall>j \<in> set (trace s). phase (set_phase i (Running rest) (tasks s) ! j) \<noteq> Queued"
    using exec_ok by (auto simp: traced_def list_all_iff) (metis phase.distinct(1) set_phase_simps(2,3))
  ultimately show ?case using exec_ok
    by (auto simp: traced_def list_all_iff sorted_append)
next
  case (exec_fail i s st rest e)
  have "\<forall>j \<in> set (trace s). j \<le> i"
    using exec_fail running_is_front [of d0 "tasks s" "store s" i "st # rest"]
    by (auto simp: traced_def list_all_iff)
  moreover have "\<forall>j \<in> set (trace s). phase (set_phase i (Settled (Some e)) (tasks s) ! j) \<noteq> Queued"
    using exec_fail by (auto simp: traced_def list_all_iff) (metis phase.distinct(3) set_phase_simps(2,3))
  ultimately show ?case using exec_fail
    by (auto simp: traced_def list_all_iff sorted_append)
next
  case (finish i s)
  then show ?case
    by (auto simp: traced_def list_all_iff) (metis phase.distinct(3) set_phase_simps(2,3))
qed

lemma reachable_traced: "reachable d0 s \<Longrightarrow> traced s"
proof (induction rule: reachable.induct)
  case initial
  then show ?case by (simp add: traced_def init_def)
next
  case (after s s')
  then show ?case using step_traced reachable_serial by blast
qed

lemma caller_promise:
  assumes "serial d ts st" and "i < length ts" and "phase (ts ! i) = Settled r"
  shows "next_promise (lock_before Resolved ts i) (phase (ts ! i)) =
           (case r of None \<Rightarrow> Resolved | Some e \<Rightarrow> Failed e)"
proof -
  from serial_settled_prefix [OF assms(1,2)] assms(3) have "\<forall>j<i. settled (ts ! j)" by simp
  then have "lock_before Resolved ts i = Resolved" using assms(2) by (simp add: lock_before_Resolved)
  then show ?thesis using assms(3)
    by (simp add: next_promise_def then_call_def catch_rethrow_def fn_promise_def split: option.splits)
qed

lemma never_stuck:
  assumes "\<exists>i<length (tasks s). \<not> settled (tasks s ! i)"
  shows "\<exists>s'. step s s' \<and> length (tasks s') = length (tasks s)"
proof -
  from assms obtain i where i: "i < length (tasks s) \<and> \<not> settled (tasks s ! i)"
    and least: "\<forall>j<i. \<not> (j < length (tasks s) \<and> \<not> settled (tasks s ! j))"
    using exists_least_iff [of "\<lambda>i. i < length (tasks s) \<and> \<not> settled (tasks s ! i)"] by blast
  then have pre: "\<forall>j<i. settled (tasks s ! j)" by auto
  show ?thesis
  proof (cases "phase (tasks s ! i)")
    case Queued
    moreover from pre i have "lock_before Resolved (tasks s) i = Resolved"
      by (simp add: lock_before_Resolved)
    ultimately have "step s (s\<lparr>tasks := set_phase i (Running (body (tasks s ! i))) (tasks s)\<rparr>)"
      using i by (intro step.start) simp_all
    then show ?thesis by (intro exI conjI, assumption) simp
  next
    case (Running x)
    show ?thesis
    proof (cases x)
      case Nil
      with Running i have "step s (s\<lparr>tasks := set_phase i (Settled None) (tasks s)\<rparr>)"
        by (intro step.finish) simp_all
      then show ?thesis by (intro exI conjI, assumption) simp
    next
      case (Cons st rest)
      show ?thesis
      proof (cases "st (store s)")
        case (Inl e)
        with Running Cons i
        have "step s (s\<lparr>tasks := set_phase i (Settled (Some e)) (tasks s), trace := trace s @ [i]\<rparr>)"
          by (intro step.exec_fail [where st = st and rest = rest]) simp_all
        then show ?thesis by (intro exI conjI, assumption) simp
      next
        case (Inr d')
        with Running Cons i
        have "step s (s\<lparr>store := d', tasks := set_phase i (Running rest) (tasks s), trace := trace s @ [i]\<rparr>)"
          by (intro step.exec_ok [where st = st]) simp_all
        then show ?thesis by (intro exI conjI, assumption) simp
      qed
    qed
  next
    case (Settled r)
    with i show ?thesis by (simp add: settled_def)
  qed
qed

lemma fail_body_fails:
  "insert_or_ignore_article (ex_row ''zz::1'' ''zz'' 1 1 0 0) ex_db = Inl ForeignKeyViolation"
  by (simp add: insert_or_ignore_article_def article_ids_def feed_urls_def ex_db_def ex_row_def
      ex_feed_def)

lemma reachable_lock_run: "reachable ex_db lock_run"
proof -
  let ?t1 = "\<lambda>ph. \<lparr>body = fail_body, phase = ph\<rparr>"
  let ?t2 = "\<lambda>ph. \<lparr>body = read_body, phase = ph\<rparr>"
  let ?s1 = "\<lparr>store = ex_db, tasks = [?t1 Queued], trace = []\<rparr>"
  let ?s2 = "\<lparr>store = ex_db, tasks = [?t1 Queued, ?t2 Queued], trace = []\<rparr>"
  let ?s3 = "\<lparr>store = ex_db, tasks = [?t1 (Running fail_body), ?t2 Queued], trace = []\<rparr>"
  let ?s4 = "\<lparr>store = ex_db, tasks = [?t1 (Settled (Some ForeignKeyViolation)), ?t2 Queued], trace = [0]\<rparr>"
  let ?s5 = "\<lparr>store = ex_db, tasks = [?t1 (Settled (Some ForeignKeyViolation)), ?t2 (Running read_body)], trace = [0]\<rparr>"
  let ?s6 = "\<lparr>store = markRead ''fb::1'' ex_db,
             tasks = [?t1 (Settled (Some ForeignKeyViolation)), ?t2 (Running [])], trace = [0, 1]\<rparr>"
  have r0: "reachable ex_db (init ex_db)" by (rule reachable.initial)
  have "step (init ex_db) ?s1"
    using step.submit [of "init ex_db" fail_body] by (simp add: init_def)
  with r0 have r1: "reachable ex_db ?s1" by (rule reachable.after)
  have "step ?s1 ?s2"
    using step.submit [of ?s1 read_body] by simp
  with r1 have r2: "reachable ex_db ?s2" by (rule reachable.after)
  have "step ?s2 ?s3"
    using step.start [of 0 ?s2] by (simp add: set_phase_def)
  with r2 have r3: "reachable ex_db ?s3" by (rule reachable.after)
  have "step ?s3 ?s4"
    using step.exec_fail [of 0 ?s3 "insert_or_ignore_article (ex_row ''zz::1'' ''zz'' 1 1 0 0)" "[]"
        ForeignKeyViolation]
    by (simp add: set_phase_def fail_body_def fail_body_fails)
  with r3 have r4: "reachable ex_db ?s4" by (rule reachable.after)
  have "step ?s4 ?s5"
    using step.start [of 1 ?s4]
    by (simp add: set_phase_def lock_after_def next_promise_def then_call_def catch_rethrow_def
        catch_ignore_def fn_promise_def)
  with r4 have r5: "reachable ex_db ?s5" by (rule reachable.after)
  have "step ?s5 ?s6"
    using step.exec_ok [of 1 ?s5 "\<lambda>d. Inr (markRead ''fb::1'' d)" "[]" "markRead ''fb::1'' ex_db"]
    by (simp add: set_phase_def read_body_def)
  with r5 have r6: "reachable ex_db ?s6" by (rule reachable.after)
  have "step ?s6 lock_run"
    using step.finish [of 1 ?s6] by (simp add: set_phase_def lock_run_def)
  with r6 show ?thesis by (rule reachable.after)
qed

text \<open>
  Claim C6.  In every state that calls of \<^verbatim>\<open>withWriteLock\<close>, made at any moments, and the
  event loop can reach: the calls have run one at a time in the order they were made
  (\<open>serial\<close>: a call that has started finds every earlier call settled, no later call
  started, and results and store are those of running the bodies one after the other);
  the statements were issued in the order of their calls; the promise returned to the
  caller of a body that failed is rejected with its error, that of a body that succeeded is
  fulfilled; the lock a call finds is fulfilled as soon as all earlier calls have
  settled, failed or not; and as long as a call is unsettled, the event loop can take a
  step without any new call.
\<close>

theorem withWriteLock_fifo:
  assumes "reachable d0 s"
  shows "serial d0 (tasks s) (store s) \<and> sorted (trace s) \<and>
     (\<forall>i<length (tasks s).
        (phase (tasks s ! i) \<noteq> Queued \<longrightarrow> (\<forall>j<i. settled (tasks s ! j))) \<and>
        (phase (tasks s ! i) = Settled (Some e) \<longrightarrow>
           next_promise (lock_before Resolved (tasks s) i) (phase (tasks s ! i)) = Failed e) \<and>
        (phase (tasks s ! i) = Settled None \<longrightarrow>
           next_promise (lock_before Resolved (tasks s) i) (phase (tasks s ! i)) = Resolved) \<and>
        ((\<forall>j<i. settled (tasks s ! j)) \<longrightarrow> lock_before Resolved (tasks s) i = Resolved)) \<and>
     ((\<exists>i<length (tasks s). \<not> settled (tasks s ! i)) \<longrightarrow>
        (\<exists>s'. step s s' \<and> length (tasks s') = length (tasks s)))"
proof -
  have ser: "serial d0 (tasks s) (store s)" by (rule reachable_serial [OF assms])
  have "sorted (trace s)" using reachable_traced [OF assms] by (simp add: traced_def)
  moreover have "\<forall>i<length (tasks s).
        (phase (tasks s ! i) \<noteq> Queued \<longrightarrow> (\<forall>j<i. settled (tasks s ! j))) \<and>
        (phase (tasks s ! i) = Settled (Some e) \<longrightarrow>
           next_promise (lock_before Resolved (tasks s) i) (phase (tasks s ! i)) = Failed e) \<and>
        (phase (tasks s ! i) = Settled None \<longrightarrow>
           next_promise (lock_before Resolved (tasks s) i) (phase (tasks s ! i)) = Resolved) \<and>
        ((\<forall>j<i. settled (tasks s ! j)) \<longrightarrow> lock_before Resolved (tasks s) i = Resolved)"
  proof (intro allI impI)
    fix i assume i: "i < length (tasks s)"
    have a: "phase (tasks s ! i) \<noteq> Queued \<longrightarrow> (\<forall>j<i. settled (tasks s ! j))"
      using serial_settled_prefix [OF ser i] by simp
    have b: "phase (tasks s ! i) = Settled (Some e) \<longrightarrow>
           next_promise (lock_before Resolved (tasks s) i) (phase (tasks s ! i)) = Failed e"
      using caller_promise [OF ser i, of "Some e"] by simp
    have c: "phase (tasks s ! i) = Settled None \<longrightarrow>
           next_promise (lock_before Resolved (tasks s) i) (phase (tasks s ! i)) = Resolved"
      using caller_promise [OF ser i, of None] by simp
    have d: "(\<forall>j<i. settled (tasks s ! j)) \<longrightarrow> lock_before Resolved (tasks s) i = Resolved"
      using i by (simp add: lock_before_Resolved)
    from a b c d show "(phase (tasks s ! i) \<noteq> Queued \<longrightarrow> (\<forall>j<i. settled (tasks s ! j))) \<and>
        (phase (tasks s ! i) = Settled (Some e) \<longrightarrow>
           next_promise (lock_before Resolved (tasks s) i) (phase (tasks s ! i)) = Failed e) \<and>
        (phase (tasks s ! i) = Settled None \<longrightarrow>
           next_promise (lock_before Resolved (tasks s) i) (phase (tasks s ! i)) = Resolved) \<and>
        ((\<forall>j<i. settled (tasks s ! j)) \<longrightarrow> lock_before Resolved (tasks s) i = Resolved)"
      by blast
  qed
  ultimately show ?thesis using ser never_stuck [of s] by blast
qed

theorem withWriteLock_fifo_witness:
  "reachable ex_db lock_run \<and>
   serial ex_db (tasks lock_run) (store lock_run) \<and>
   sorted (trace lock_run) \<and>
   phase (tasks lock_run ! 0) = Settled (Some ForeignKeyViolation) \<and>
   next_promise (lock_before Resolved (tasks lock_run) 0) (phase (tasks lock_run ! 0)) =
     Failed ForeignKeyViolation \<and>
   phase (tasks lock_run ! 1) = Settled None \<and>
   next_promise (lock_before Resolved (tasks lock_run) 1) (phase (tasks lock_run ! 1)) = Resolved \<and>
   store lock_run = markRead ''fb::1'' ex_db"
proof -
  have p: "phase (tasks lock_run ! 0) = Settled (Some ForeignKeyViolation)"
    "phase (tasks lock_run ! 1) = Settled None" "store lock_run = markRead ''fb::1'' ex_db"
    "0 < length (tasks lock_run)" "1 < length (tasks lock_run)"
    by (simp_all add: lock_run_def)
  from withWriteLock_fifo [OF reachable_lock_run, of ForeignKeyViolation] p reachable_lock_run
  show ?thesis by blast
qed

subsection \<open>The schema and the flag values are kept by every operation\<close>

text \<open>The hypotheses \<open>wf_db\<close> and \<open>flags_ok\<close> of the theorems above hold in every store that the
  functions of \<^verbatim>\<open>db.js\<close> build from one in which they hold; for \<open>upsertArticles\<close> and the
  import see \<open>wf_upsertArticles\<close> and \<open>exec_all_steps\<close>.\<close>

lemma wf_removeFeed: "wf_db d \<Longrightarrow> wf_db (removeFeed u d)"
  by (auto simp: wf_db_def removeFeed_def delete_feed_def distinct_map_filter list_all_iff
      feed_urls_def)

lemma wf_addFeed: "wf_db d \<Longrightarrow> wf_db (addFeed g u n a d)"
  by (simp add: addFeed_def wf_insert_feed)

lemma wf_update_articles:
  assumes "wf_db d" and "\<And>r. r_id (f r) = r_id r" and "\<And>r. r_feed_url (f r) = r_feed_url r"
  shows "wf_db (update_articles c f d)"
proof -
  have i: "r_id (if b then f r else r) = r_id r" for b r using assms(2) by simp
  have u: "r_feed_url (if b then f r else r) = r_feed_url r" for b r using assms(3) by simp
  have "list_all (\<lambda>r. r_feed_url r \<in> feed_urls d) (map (\<lambda>r. if c r then f r else r) (articles d))"
    using assms(1) by (simp add: wf_db_def list_all_length u)
  then show ?thesis using assms(1)
    by (simp add: wf_db_def update_articles_def feed_urls_def o_def i)
qed

lemma wf_flag_mutations:
  assumes "wf_db d"
  shows "wf_db (markRead i d)" and "wf_db (toggleRead i d)" and "wf_db (toggleStar i d)"
  using assms by (simp_all add: markRead_def toggleRead_def toggleStar_def wf_update_articles)

lemma wf_markAllRead:
  assumes "wf_db d" and "markAllRead m ids d = Inr d'"
  shows "wf_db d'"
  using assms by (auto simp: markAllRead_def wf_update_articles split: if_splits)

text \<open>\<^verbatim>\<open>markAllRead\<close> fails exactly for a list longer than the limit, and changes nothing
  then.\<close>

lemma markAllRead_fails:
  "(\<exists>e. markAllRead m ids d = Inl e) \<longleftrightarrow> length ids > m"
  by (auto simp: markAllRead_def)

lemma flags_ok_update_articles:
  assumes "flags_ok d"
    and "\<And>r. r_is_read r \<in> {0, 1} \<Longrightarrow> r_is_starred r \<in> {0, 1} \<Longrightarrow>
          r_is_read (f r) \<in> {0, 1} \<and> r_is_starred (f r) \<in> {0, 1}"
  shows "flags_ok (update_articles c f d)"
  using assms by (auto simp: flags_ok_def update_articles_def list_all_iff)

lemma flags_ok_flag_mutations:
  assumes "flags_ok d"
  shows "flags_ok (markRead i d)" and "flags_ok (toggleRead i d)" and "flags_ok (toggleStar i d)"
  using assms by (auto simp: markRead_def toggleRead_def toggleStar_def
      intro!: flags_ok_update_articles)

lemma flags_ok_markAllRead:
  assumes "flags_ok d" and "markAllRead m ids d = Inr d'"
  shows "flags_ok d'"
  using assms by (auto simp: markAllRead_def split: if_splits intro!: flags_ok_update_articles)

lemma flags_ok_map:
  assumes "flags_ok d" and "articles d' = map f (articles d)"
    and "\<And>r. r_is_read (f r) = r_is_read r" and "\<And>r. r_is_starred (f r) = r_is_starred r"
  shows "flags_ok d'"
  using assms by (simp add: flags_ok_def list_all_iff)

lemma flags_ok_removeFeed: "flags_ok d \<Longrightarrow> flags_ok (removeFeed u d)"
  by (auto simp: flags_ok_def removeFeed_def delete_feed_def list_all_iff)

lemma flags_ok_addFeed: "flags_ok d \<Longrightarrow> flags_ok (addFeed g u n a d)"
  by (auto simp: flags_ok_def addFeed_def insert_or_ignore_feed_def)

lemma flags_ok_upsertArticles:
  assumes "flags_ok d" and "upsertArticles g now u n its d = (res, d')"
  shows "flags_ok d'"
proof (cases res)
  case None
  with assms(2) obtain d1 where
    d1: "upsert_items g now u n its d = (None, d1)" "d' = delete_beyond_limit u 500 d1"
    by (auto simp: upsertArticles_None)
  from upsert_items_ok [OF d1(1)] obtain new where
    n: "articles d1 = map (refreshed g now u n its) (articles d) @ new"
       "\<forall>x \<in> set new. r_is_read x = default_is_read \<and> r_is_starred x = default_is_starred"
    by blast
  with assms(1) have "flags_ok d1"
    by (auto simp: flags_ok_def list_all_iff default_is_read_def default_is_starred_def)
  then show ?thesis unfolding d1(2) by (auto simp: flags_ok_def delete_beyond_limit_def list_all_iff)
next
  case (Some e)
  with assms(2) have "upsert_items g now u n its d = (Some e, d')" by (simp add: upsertArticles_Some)
  from upsert_items_failed [OF this] obtain k where
    "articles d' = map (refreshed g now u n (take k its)) (articles d)" by blast
  with assms(1) show ?thesis by (rule flags_ok_map) simp_all
qed

lemma flags_ok_exec_all:
  assumes "flags_ok d" and "exec_all (import_stmts g c n ls) d = (res, d')"
  shows "flags_ok d'"
proof -
  have stmts: "\<forall>s \<in> set (import_stmts g c n ls). \<forall>r. s = InsertArticle r \<longrightarrow>
      r_is_read r \<in> {0, 1} \<and> r_is_starred r \<in> {0, 1}"
    by (auto simp: import_stmts_def legacy_article_row_def legacy_flag_def
        split: option.splits)
  have "flags_ok d \<Longrightarrow> exec_all ss d = (res, d') \<Longrightarrow>
        \<forall>s \<in> set ss. \<forall>r. s = InsertArticle r \<longrightarrow> r_is_read r \<in> {0, 1} \<and> r_is_starred r \<in> {0, 1}
        \<Longrightarrow> flags_ok d'" for ss
  proof (induction ss arbitrary: d)
    case Nil
    then show ?case by simp
  next
    case (Cons s ss)
    show ?case
    proof (cases "exec s d")
      case (Inl e)
      with Cons.prems show ?thesis by simp
    next
      case (Inr dm)
      with Cons.prems(1,3) have "flags_ok dm"
        by (cases s)
          (auto simp: flags_ok_def insert_or_ignore_feed_def insert_or_ignore_article_def
            set_marker_def split: if_splits)
      with Cons Inr show ?thesis by simp
    qed
  qed
  with assms stmts show ?thesis by blast
qed

end
